theory Spec2Isabelle
  imports Main "HOL-Library.AList"
begin

section \<open>The production service worker of Alf: request router, fetch policies, cache maintainer\<close>

text \<open>
  This theory embeds \<^verbatim>\<open>src/production/ProductionServiceWorker.js\<close>. The worker is
  event driven and single threaded; every handler of the source is a function from the
  state of the worker to a result and a new state. What the browser provides (the clock,
  the network, the failures of the cache store) is a parameter, the \<open>host\<close>.
\<close>

subsection \<open>Strings and numbers of the host language\<close>

text \<open>
  \<^verbatim>\<open>String.prototype.includes\<close>: \<open>str_includes s t\<close> is \<^verbatim>\<open>s.includes(t)\<close>
  (\<open>includes\<close> itself is a keyword of the prover).
\<close>

fun starts_with :: "string \<Rightarrow> string \<Rightarrow> bool" where
  "starts_with s [] = True"
| "starts_with [] (c # t) = False"
| "starts_with (d # s) (c # t) = (d = c \<and> starts_with s t)"

fun str_includes :: "string \<Rightarrow> string \<Rightarrow> bool" where
  "str_includes [] t = (t = [])"
| "str_includes (d # s) t = (starts_with (d # s) t \<or> str_includes s t)"

text \<open>
  \<^verbatim>\<open>Number.prototype.toString\<close> on an integer: the decimal digits, with a minus
  sign below zero. The numbers of the worker are epoch milliseconds and their quotients,
  integers far below \<open>2 ^ 53\<close>, where the floating point numbers of the source are exact
  and printed without exponent.
\<close>

definition digit_char :: "nat \<Rightarrow> char" where
  "digit_char d = ''0123456789'' ! d"

fun digits :: "nat \<Rightarrow> string" where
  "digits n = (if n < 10 then [digit_char n] else digits (n div 10) @ [digit_char (n mod 10)])"

declare digits.simps [simp del]

definition toString :: "int \<Rightarrow> string" where
  "toString i = (if i < 0 then CHR ''-'' # digits (nat (- i)) else digits (nat i))"

text \<open>
  \<^verbatim>\<open>parseInt(string)\<close> without a radix: leading white space is skipped, a sign is
  read, a prefix \<^verbatim>\<open>0x\<close> or \<^verbatim>\<open>0X\<close> selects radix 16, and the longest run of digits
  of the radix is the value; with no digit at all the result is \<^verbatim>\<open>NaN\<close>, here \<open>None\<close>.
  Every comparison with \<^verbatim>\<open>NaN\<close> is false in the source. The strings that the worker
  parses are header values, whose code units are bytes: a \<open>char\<close> is that byte, and the
  white space of the language below 256 is the six ASCII characters and U+00A0.
\<close>

definition is_white_space :: "char \<Rightarrow> bool" where
  "is_white_space c =
     (c \<in> set [CHR '' '', CHR 0x09, CHR 0x0A, CHR 0x0B, CHR 0x0C, CHR 0x0D, CHR 0xA0])"

definition digit_value :: "nat \<Rightarrow> char \<Rightarrow> nat option" where
  "digit_value radix c =
     (let n = of_char c :: nat;
          v = (if 48 \<le> n \<and> n \<le> 57 then Some (n - 48)
               else if 97 \<le> n \<and> n \<le> 122 then Some (n - 87)
               else if 65 \<le> n \<and> n \<le> 90 then Some (n - 55)
               else None)
      in case v of None \<Rightarrow> None | Some d \<Rightarrow> if d < radix then Some d else None)"

fun parse_digits :: "nat \<Rightarrow> string \<Rightarrow> nat option \<Rightarrow> nat option" where
  "parse_digits radix [] acc = acc"
| "parse_digits radix (c # cs) acc =
     (case digit_value radix c of
        None \<Rightarrow> acc
      | Some d \<Rightarrow> parse_digits radix cs (Some ((case acc of None \<Rightarrow> 0 | Some a \<Rightarrow> a) * radix + d)))"

definition parseInt :: "string \<Rightarrow> int option" where
  "parseInt str =
     (let s1 = dropWhile is_white_space str;
          negative = (s1 \<noteq> [] \<and> hd s1 = CHR ''-'');
          s2 = (if s1 \<noteq> [] \<and> (hd s1 = CHR ''-'' \<or> hd s1 = CHR ''+'') then tl s1 else s1);
          hex = (starts_with s2 ''0x'' \<or> starts_with s2 ''0X'');
          s3 = (if hex then drop 2 s2 else s2)
      in case parse_digits (if hex then 16 else 10) s3 None of
           None \<Rightarrow> None
         | Some n \<Rightarrow> Some (if negative then - int n else int n))"

text \<open>A string is truthy in the source when it is present and not empty.\<close>

definition truthy :: "string option \<Rightarrow> bool" where
  "truthy v = (case v of None \<Rightarrow> False | Some str \<Rightarrow> str \<noteq> [])"

subsection \<open>Requests, responses, headers\<close>

text \<open>
  A request is its method and its absolute URL. A partition keys its entries by the URL
  of the request; every request that reaches a policy is a GET request.

  A response carries the \<^verbatim>\<open>ok\<close> flag, its headers, its body, and the guard of its
  headers. The \<^verbatim>\<open>Response\<close> objects that \<^verbatim>\<open>fetch\<close> and \<^verbatim>\<open>cache.match\<close> hand to
  the worker have the guard \<^verbatim>\<open>immutable\<close> (\<open>from_host\<close>), and \<^verbatim>\<open>clone()\<close> keeps
  the guard; only a response that a script constructs has writable headers.
  \<^verbatim>\<open>headers.get\<close> is \<open>map_of\<close>, which is \<open>None\<close> where the source yields
  \<^verbatim>\<open>null\<close>; header names are compared as the source spells them.
\<close>

datatype store_op = OpMatch | OpPut | OpDelete

datatype error = NetworkError string | StoreError store_op string string | TypeError string

datatype guard = Immutable | Writable

record request =
  req_method :: string
  req_url :: string

record response =
  ok :: bool
  headers :: "(string \<times> string) list"
  body :: string
  headers_guard :: guard

definition from_host :: "response \<Rightarrow> response" where
  "from_host r = r\<lparr>headers_guard := Immutable\<rparr>"

definition headers_get :: "response \<Rightarrow> string \<Rightarrow> string option" where
  "headers_get r name = map_of (headers r) name"

text \<open>
  \<^verbatim>\<open>headers.set(name, value)\<close> strips the HTTP white space around the value and throws
  a \<^verbatim>\<open>TypeError\<close> when the value is not a header value or when the guard is
  \<^verbatim>\<open>immutable\<close>; otherwise it replaces the header. The names that the worker sets are
  header names, and none of them is forbidden for a response.
\<close>

definition is_http_white_space :: "char \<Rightarrow> bool" where
  "is_http_white_space c = (c \<in> set [CHR 0x09, CHR 0x0A, CHR 0x0D, CHR '' ''])"

definition normalize_value :: "string \<Rightarrow> string" where
  "normalize_value v =
     rev (dropWhile is_http_white_space (rev (dropWhile is_http_white_space v)))"

definition is_header_value :: "string \<Rightarrow> bool" where
  "is_header_value v = (CHR 0x00 \<notin> set v \<and> CHR 0x0A \<notin> set v \<and> CHR 0x0D \<notin> set v)"

definition headers_set :: "string \<Rightarrow> string \<Rightarrow> response \<Rightarrow> error + response" where
  "headers_set name v r =
     (if \<not> is_header_value (normalize_value v) then Inl (TypeError ''invalid header value'')
      else if headers_guard r = Immutable then Inl (TypeError ''headers are immutable'')
      else Inr (r\<lparr>headers := AList.update name (normalize_value v) (headers r)\<rparr>))"

text \<open>
  \<^verbatim>\<open>new URL(request.url).origin\<close>, for the serialised URLs a service worker sees,
  of the shape \<^verbatim>\<open>scheme://authority/path?query#fragment\<close>: the origin is everything
  before the first \<^verbatim>\<open>/\<close>, \<^verbatim>\<open>?\<close> or \<^verbatim>\<open>#\<close> that follows \<^verbatim>\<open>://\<close>.
\<close>

definition is_delim :: "char \<Rightarrow> bool" where
  "is_delim c = (c = CHR ''/'' \<or> c = CHR ''?'' \<or> c = CHR ''#'')"

fun split_scheme :: "string \<Rightarrow> string \<Rightarrow> (string \<times> string) option" where
  "split_scheme acc [] = None"
| "split_scheme acc (c # cs) =
     (if starts_with (c # cs) ''://'' then Some (acc @ ''://'', drop 3 (c # cs))
      else split_scheme (acc @ [c]) cs)"

definition url_origin :: "string \<Rightarrow> string" where
  "url_origin u =
     (case split_scheme [] u of
        None \<Rightarrow> ''null''
      | Some (scheme, rest) \<Rightarrow> scheme @ takeWhile (\<lambda>c. \<not> is_delim c) rest)"

subsection \<open>The host and the state of the worker\<close>

text \<open>
  The host answers what the source asks of the browser. \<open>clock h n\<close> is the value of
  the \<open>n\<close>-th call of \<^verbatim>\<open>Date.now()\<close>; \<open>net h n c\<close> is how the \<open>n\<close>-th call of
  \<^verbatim>\<open>fetch\<close> settles; \<open>rejects h op cache url\<close> says that the cache store rejects the
  operation \<open>op\<close> on that key of that partition (quota, I/O).
\<close>

datatype fetch_result = Rejected error | Responded response

record fetch_call =
  fc_url :: string
  fc_cache :: string
  fc_headers :: "(string \<times> string) list"

record host =
  clock :: "nat \<Rightarrow> int"
  net :: "nat \<Rightarrow> fetch_call \<Rightarrow> fetch_result"
  rejects :: "store_op \<Rightarrow> string \<Rightarrow> string \<Rightarrow> bool"

text \<open>
  A call of an \<^verbatim>\<open>async\<close> function that is not awaited runs up to its first
  \<^verbatim>\<open>await\<close>, the fetch, and leaves the rest as a pending task, resumed when the fetch
  has settled.
\<close>

datatype background =
  RefreshCacheInBackground
| UpdateCacheInBackgroundWithConditionalBypass
| UpdateCacheInBackground

record task =
  t_kind :: background
  t_request :: request
  t_cache :: string
  t_fetch :: nat
  t_call :: fetch_call

text \<open>
  \<open>caches\<close> is the cache storage: the partitions by name, each the list of its entries
  in the order of \<^verbatim>\<open>cache.keys()\<close>. \<open>ticks\<close> counts the calls of \<^verbatim>\<open>Date.now()\<close>,
  \<open>fetches\<close> is the log of the calls of \<^verbatim>\<open>fetch\<close>, \<open>warnings\<close> that of
  \<^verbatim>\<open>console.warn\<close>.
\<close>

record state =
  caches :: "(string \<times> (string \<times> response) list) list"
  ticks :: nat
  fetches :: "fetch_call list"
  pending :: "task list"
  warnings :: "string list"

definition CACHE_VERSION :: string where
  "CACHE_VERSION = ''v1.0.0''"

definition STATIC_CACHE_NAME :: string where
  "STATIC_CACHE_NAME = ''static-'' @ CACHE_VERSION"

definition DYNAMIC_CACHE_NAME :: string where
  "DYNAMIC_CACHE_NAME = ''dynamic-'' @ CACHE_VERSION"

definition API_CACHE_NAME :: string where
  "API_CACHE_NAME = ''api-'' @ CACHE_VERSION"

definition maxCacheAge :: int where
  "maxCacheAge = 24 * 60 * 60 * 1000"

definition staleWhileRevalidateTime :: int where
  "staleWhileRevalidateTime = 5 * 60 * 1000"

definition Date_now :: "host \<Rightarrow> state \<Rightarrow> int \<times> state" where
  "Date_now h s = (clock h (ticks s), s\<lparr>ticks := Suc (ticks s)\<rparr>)"

definition console_warn :: "string \<Rightarrow> state \<Rightarrow> state" where
  "console_warn msg s = s\<lparr>warnings := warnings s @ [msg]\<rparr>"

subsection \<open>The cache storage\<close>

text \<open>
  \<^verbatim>\<open>caches.open\<close> creates the partition when it is missing. \<^verbatim>\<open>cache.match\<close>
  yields \<open>None\<close> for \<^verbatim>\<open>undefined\<close>, and otherwise a \<^verbatim>\<open>Response\<close> with immutable
  headers for the stored entry. \<^verbatim>\<open>cache.put\<close> replaces the entry of the key or
  appends one; \<^verbatim>\<open>cache.delete\<close> of a key that is absent changes nothing and is no
  error. A cache handle of the source is the name of its partition here.
\<close>

definition caches_keys :: "state \<Rightarrow> string list" where
  "caches_keys s = map fst (caches s)"

definition caches_open :: "string \<Rightarrow> state \<Rightarrow> state" where
  "caches_open name s =
     (if name \<in> set (caches_keys s) then s else s\<lparr>caches := caches s @ [(name, [])]\<rparr>)"

definition cache_entries :: "state \<Rightarrow> string \<Rightarrow> (string \<times> response) list" where
  "cache_entries s name = (case map_of (caches s) name of None \<Rightarrow> [] | Some es \<Rightarrow> es)"

definition cache_keys :: "string \<Rightarrow> state \<Rightarrow> string list" where
  "cache_keys name s = map fst (cache_entries s name)"

definition cache_lookup :: "state \<Rightarrow> string \<Rightarrow> string \<Rightarrow> response option" where
  "cache_lookup s name u = map_of (cache_entries s name) u"

definition cache_match :: "host \<Rightarrow> string \<Rightarrow> string \<Rightarrow> state \<Rightarrow> error + response option" where
  "cache_match h name u s =
     (if rejects h OpMatch name u then Inl (StoreError OpMatch name u)
      else Inr (map_option from_host (cache_lookup s name u)))"

definition cache_put :: "host \<Rightarrow> string \<Rightarrow> string \<Rightarrow> response \<Rightarrow> state \<Rightarrow> (error + unit) \<times> state" where
  "cache_put h name u r s =
     (if rejects h OpPut name u then (Inl (StoreError OpPut name u), s)
      else (Inr (), s\<lparr>caches := AList.map_entry name (AList.update u r) (caches s)\<rparr>))"

definition cache_delete :: "host \<Rightarrow> string \<Rightarrow> string \<Rightarrow> state \<Rightarrow> (error + bool) \<times> state" where
  "cache_delete h name u s =
     (if rejects h OpDelete name u then (Inl (StoreError OpDelete name u), s)
      else (Inr (cache_lookup s name u \<noteq> None),
            s\<lparr>caches := AList.map_entry name (AList.delete u) (caches s)\<rparr>))"

text \<open>
  \<^verbatim>\<open>cache.put(request, responseToCache)\<close> without \<^verbatim>\<open>await\<close>, as the fetch policies
  call it: the write is started, and a rejection of it reaches nobody.
\<close>

definition cache_put_unawaited :: "host \<Rightarrow> string \<Rightarrow> string \<Rightarrow> response \<Rightarrow> state \<Rightarrow> state" where
  "cache_put_unawaited h name u r s = snd (cache_put h name u r s)"

subsection \<open>The network\<close>

text \<open>
  \<open>await_fetch h n c\<close> is what the worker receives when fetch number \<open>n\<close>, the call
  \<open>c\<close>, has settled: the rejection, or the response as a \<^verbatim>\<open>Response\<close> with immutable
  headers.
\<close>

definition await_fetch :: "host \<Rightarrow> nat \<Rightarrow> fetch_call \<Rightarrow> fetch_result" where
  "await_fetch h n c =
     (case net h n c of Rejected e \<Rightarrow> Rejected e | Responded r \<Rightarrow> Responded (from_host r))"

definition fetch :: "host \<Rightarrow> fetch_call \<Rightarrow> state \<Rightarrow> fetch_result \<times> state" where
  "fetch h c s = (await_fetch h (length (fetches s)) c, s\<lparr>fetches := fetches s @ [c]\<rparr>)"

definition fetch_detached :: "background \<Rightarrow> request \<Rightarrow> string \<Rightarrow> fetch_call \<Rightarrow> state \<Rightarrow> state" where
  "fetch_detached kind req name c s =
     s\<lparr>fetches := fetches s @ [c],
       pending := pending s @
         [\<lparr>t_kind = kind, t_request = req, t_cache = name, t_fetch = length (fetches s), t_call = c\<rparr>]\<rparr>"

definition no_cache_headers :: "(string \<times> string) list" where
  "no_cache_headers =
     [(''Cache-Control'', ''no-cache, no-store, must-revalidate''), (''Pragma'', ''no-cache'')]"

definition plain_fetch :: "request \<Rightarrow> fetch_call" where
  "plain_fetch req = \<lparr>fc_url = req_url req, fc_cache = ''default'', fc_headers = []\<rparr>"

definition busting_fetch :: "request \<Rightarrow> (string \<times> string) list \<Rightarrow> fetch_call" where
  "busting_fetch req extra =
     \<lparr>fc_url = req_url req, fc_cache = ''no-cache'', fc_headers = no_cache_headers @ extra\<rparr>"

subsection \<open>Cache busting helper functions\<close>

definition generateSignature :: "host \<Rightarrow> string \<Rightarrow> state \<Rightarrow> string \<times> state" where
  "generateSignature h u s =
     (let (t, s1) = Date_now h s in (u @ ''_'' @ toString (t div (5 * 60 * 1000)), s1))"

definition shouldInvalidateCache :: "host \<Rightarrow> request \<Rightarrow> response \<Rightarrow> state \<Rightarrow> bool \<times> state" where
  "shouldInvalidateCache h req cachedResponse s =
     (let cachedSignature = headers_get cachedResponse ''X-Signature'';
          (currentSignature, s1) = generateSignature h (req_url req) s
      in (cachedSignature \<noteq> Some currentSignature, s1))"

text \<open>
  The test \<^verbatim>\<open>cacheTimestamp && (Date.now() - parseInt(cacheTimestamp)) > limit\<close> of
  the API policy, the default policy and the age sweep: the clock is read only when the
  header is present and not empty.
\<close>

definition older_than :: "host \<Rightarrow> string option \<Rightarrow> int \<Rightarrow> state \<Rightarrow> bool \<times> state" where
  "older_than h cacheTimestamp limit s =
     (case cacheTimestamp of
        None \<Rightarrow> (False, s)
      | Some v \<Rightarrow>
          if v = [] then (False, s)
          else (let (t, s1) = Date_now h s
                in ((case parseInt v of None \<Rightarrow> False | Some p \<Rightarrow> t - p > limit), s1)))"

text \<open>
  The block under \<^verbatim>\<open>if (networkResponse.ok)\<close>: the response is cloned, the clone is
  stamped with \<^verbatim>\<open>headers.set\<close>, and the stamped clone is put into the partition. The
  argument \<^verbatim>\<open>Date.now().toString()\<close> is evaluated before \<^verbatim>\<open>headers.set\<close> is called;
  when \<^verbatim>\<open>headers.set\<close> throws, the \<^verbatim>\<open>cache.put\<close> is not reached.
\<close>

definition stamp_and_put ::
  "host \<Rightarrow> string \<Rightarrow> request \<Rightarrow> response \<Rightarrow> state \<Rightarrow> (error + unit) \<times> state" where
  "stamp_and_put h name req networkResponse s =
     (let (t, s1) = Date_now h s
      in case headers_set ''X-Cache-Timestamp'' (toString t) networkResponse of
           Inl e \<Rightarrow> (Inl e, s1)
         | Inr responseToCache \<Rightarrow>
             (Inr (), cache_put_unawaited h name (req_url req) responseToCache s1))"

definition stamp_bypass_and_put ::
  "host \<Rightarrow> string \<Rightarrow> request \<Rightarrow> response \<Rightarrow> state \<Rightarrow> (error + unit) \<times> state" where
  "stamp_bypass_and_put h name req networkResponse s =
     (let (t, s1) = Date_now h s
      in case headers_set ''X-Cache-Timestamp'' (toString t) networkResponse of
           Inl e \<Rightarrow> (Inl e, s1)
         | Inr stamped \<Rightarrow>
             (case headers_set ''X-Conditional-Bypass'' ''true'' stamped of
                Inl e \<Rightarrow> (Inl e, s1)
              | Inr responseToCache \<Rightarrow>
                  (Inr (), cache_put_unawaited h name (req_url req) responseToCache s1)))"

definition sign_stamp_and_put ::
  "host \<Rightarrow> string \<Rightarrow> request \<Rightarrow> response \<Rightarrow> state \<Rightarrow> (error + unit) \<times> state" where
  "sign_stamp_and_put h name req networkResponse s =
     (let (signature, s1) = generateSignature h (req_url req) s
      in case headers_set ''X-Signature'' signature networkResponse of
           Inl e \<Rightarrow> (Inl e, s1)
         | Inr signed \<Rightarrow>
             (let (t, s2) = Date_now h s1
              in case headers_set ''X-Cache-Timestamp'' (toString t) signed of
                   Inl e \<Rightarrow> (Inl e, s2)
                 | Inr responseToCache \<Rightarrow>
                     (Inr (), cache_put_unawaited h name (req_url req) responseToCache s2)))"

text \<open>
  The three background refreshes. \<open>_start\<close> is the part before the \<^verbatim>\<open>await\<close>,
  \<open>_try\<close> the rest of the \<^verbatim>\<open>try\<close> block once fetch number \<open>t_fetch\<close> has settled,
  and \<open>_resume\<close> adds the \<^verbatim>\<open>catch\<close>, which warns and swallows the error.
\<close>

definition refreshCacheInBackground_start :: "host \<Rightarrow> request \<Rightarrow> string \<Rightarrow> state \<Rightarrow> state" where
  "refreshCacheInBackground_start h req name s =
     fetch_detached RefreshCacheInBackground req name (busting_fetch req []) s"

definition refreshCacheInBackground_try :: "host \<Rightarrow> task \<Rightarrow> state \<Rightarrow> (error + unit) \<times> state" where
  "refreshCacheInBackground_try h t s =
     (case await_fetch h (t_fetch t) (t_call t) of
        Rejected e \<Rightarrow> (Inl e, s)
      | Responded networkResponse \<Rightarrow>
          if ok networkResponse
          then stamp_and_put h (t_cache t) (t_request t) networkResponse s
          else (Inr (), s))"

definition refreshCacheInBackground_resume :: "host \<Rightarrow> task \<Rightarrow> state \<Rightarrow> (error + unit) \<times> state" where
  "refreshCacheInBackground_resume h t s =
     (case refreshCacheInBackground_try h t s of
        (Inl e, s1) \<Rightarrow> (Inr (), console_warn ''Background cache refresh failed:'' s1)
      | (Inr u, s1) \<Rightarrow> (Inr u, s1))"

definition updateCacheInBackgroundWithConditionalBypass_start ::
  "host \<Rightarrow> request \<Rightarrow> string \<Rightarrow> state \<Rightarrow> state" where
  "updateCacheInBackgroundWithConditionalBypass_start h req name s =
     (let (t, s1) = Date_now h s
      in fetch_detached UpdateCacheInBackgroundWithConditionalBypass req name
           (busting_fetch req [(''X-Conditional-Bypass'', ''true''), (''X-Cache-Bust'', toString t)]) s1)"

definition updateCacheInBackgroundWithConditionalBypass_try ::
  "host \<Rightarrow> task \<Rightarrow> state \<Rightarrow> (error + unit) \<times> state" where
  "updateCacheInBackgroundWithConditionalBypass_try h t s =
     (case await_fetch h (t_fetch t) (t_call t) of
        Rejected e \<Rightarrow> (Inl e, s)
      | Responded networkResponse \<Rightarrow>
          if ok networkResponse
          then stamp_bypass_and_put h (t_cache t) (t_request t) networkResponse s
          else (Inr (), s))"

definition updateCacheInBackgroundWithConditionalBypass_resume ::
  "host \<Rightarrow> task \<Rightarrow> state \<Rightarrow> (error + unit) \<times> state" where
  "updateCacheInBackgroundWithConditionalBypass_resume h t s =
     (case updateCacheInBackgroundWithConditionalBypass_try h t s of
        (Inl e, s1) \<Rightarrow>
          (Inr (), console_warn ''Background cache update with conditional bypass failed:'' s1)
      | (Inr u, s1) \<Rightarrow> (Inr u, s1))"

definition updateCacheInBackground_start :: "host \<Rightarrow> request \<Rightarrow> string \<Rightarrow> state \<Rightarrow> state" where
  "updateCacheInBackground_start h req name s =
     fetch_detached UpdateCacheInBackground req name (plain_fetch req) s"

definition updateCacheInBackground_try :: "host \<Rightarrow> task \<Rightarrow> state \<Rightarrow> (error + unit) \<times> state" where
  "updateCacheInBackground_try h t s =
     (case await_fetch h (t_fetch t) (t_call t) of
        Rejected e \<Rightarrow> (Inl e, s)
      | Responded networkResponse \<Rightarrow>
          if ok networkResponse
          then stamp_and_put h (t_cache t) (t_request t) networkResponse s
          else (Inr (), s))"

definition updateCacheInBackground_resume :: "host \<Rightarrow> task \<Rightarrow> state \<Rightarrow> (error + unit) \<times> state" where
  "updateCacheInBackground_resume h t s =
     (case updateCacheInBackground_try h t s of
        (Inl e, s1) \<Rightarrow> (Inr (), console_warn ''Background cache update failed:'' s1)
      | (Inr u, s1) \<Rightarrow> (Inr u, s1))"

text \<open>
  The event loop resumes a pending task with the function that left it. \<open>pending\<close>
  records what was detached; resuming a task does not take it off that list.
\<close>

definition resume_task :: "host \<Rightarrow> task \<Rightarrow> state \<Rightarrow> (error + unit) \<times> state" where
  "resume_task h t s =
     (case t_kind t of
        RefreshCacheInBackground \<Rightarrow> refreshCacheInBackground_resume h t s
      | UpdateCacheInBackgroundWithConditionalBypass \<Rightarrow>
          updateCacheInBackgroundWithConditionalBypass_resume h t s
      | UpdateCacheInBackground \<Rightarrow> updateCacheInBackground_resume h t s)"

subsection \<open>The four fetch policies\<close>

text \<open>
  Each handler is an \<^verbatim>\<open>async\<close> function: its result is \<open>Inr\<close> the response it
  resolves to or \<open>Inl\<close> the error it rejects with. \<open>_try\<close> is the \<^verbatim>\<open>try\<close> block of
  a handler and \<open>_catch\<close> its \<^verbatim>\<open>catch\<close> block, which receives whatever the
  \<^verbatim>\<open>try\<close> block has thrown: the rejection of the awaited fetch, or the
  \<^verbatim>\<open>TypeError\<close> of \<^verbatim>\<open>headers.set\<close>.
\<close>

definition api_try :: "host \<Rightarrow> request \<Rightarrow> state \<Rightarrow> (error + response) \<times> state" where
  "api_try h req s =
     (let (t, s1) = Date_now h s;
          (answer, s2) = fetch h (busting_fetch req [(''X-Cache-Bust'', toString t)]) s1
      in case answer of
           Rejected e \<Rightarrow> (Inl e, s2)
         | Responded networkResponse \<Rightarrow>
             if ok networkResponse
             then (case stamp_and_put h API_CACHE_NAME req networkResponse s2 of
                     (Inl e, s3) \<Rightarrow> (Inl e, s3)
                   | (Inr u, s3) \<Rightarrow> (Inr networkResponse, s3))
             else (Inr networkResponse, s2))"

definition api_catch :: "host \<Rightarrow> request \<Rightarrow> error \<Rightarrow> state \<Rightarrow> (error + response) \<times> state" where
  "api_catch h req e s =
     (case cache_match h API_CACHE_NAME (req_url req) s of
        Inl e' \<Rightarrow> (Inl e', s)
      | Inr None \<Rightarrow> (Inl e, s)
      | Inr (Some cachedResponse) \<Rightarrow>
          (let (stale, s1) =
                 older_than h (headers_get cachedResponse ''X-Cache-Timestamp'') maxCacheAge s
           in if stale
              then (Inr cachedResponse, refreshCacheInBackground_start h req API_CACHE_NAME s1)
              else (Inr cachedResponse, s1)))"

definition handleApiRequestWithCacheBusting ::
  "host \<Rightarrow> request \<Rightarrow> state \<Rightarrow> (error + response) \<times> state" where
  "handleApiRequestWithCacheBusting h req s =
     (case api_try h req (caches_open API_CACHE_NAME s) of
        (Inr networkResponse, s1) \<Rightarrow> (Inr networkResponse, s1)
      | (Inl e, s1) \<Rightarrow> api_catch h req e s1)"

definition asset_try :: "host \<Rightarrow> request \<Rightarrow> state \<Rightarrow> (error + response) \<times> state" where
  "asset_try h req s =
     (let (signature, s1) = generateSignature h (req_url req) s;
          (answer, s2) = fetch h (busting_fetch req [(''X-Signature'', signature)]) s1
      in case answer of
           Rejected e \<Rightarrow> (Inl e, s2)
         | Responded networkResponse \<Rightarrow>
             if ok networkResponse
             then (case sign_stamp_and_put h STATIC_CACHE_NAME req networkResponse s2 of
                     (Inl e, s3) \<Rightarrow> (Inl e, s3)
                   | (Inr u, s3) \<Rightarrow> (Inr networkResponse, s3))
             else (Inr networkResponse, s2))"

definition asset_network ::
  "host \<Rightarrow> request \<Rightarrow> response option \<Rightarrow> state \<Rightarrow> (error + response) \<times> state" where
  "asset_network h req cachedResponse s =
     (case asset_try h req s of
        (Inr networkResponse, s1) \<Rightarrow> (Inr networkResponse, s1)
      | (Inl e, s1) \<Rightarrow>
          (case cachedResponse of Some c \<Rightarrow> (Inr c, s1) | None \<Rightarrow> (Inl e, s1)))"

definition handleAssetRequestWithSignatureInvalidation ::
  "host \<Rightarrow> request \<Rightarrow> state \<Rightarrow> (error + response) \<times> state" where
  "handleAssetRequestWithSignatureInvalidation h req s =
     (let s1 = caches_open STATIC_CACHE_NAME s
      in case cache_match h STATIC_CACHE_NAME (req_url req) s1 of
           Inl e \<Rightarrow> (Inl e, s1)
         | Inr None \<Rightarrow> asset_network h req None s1
         | Inr (Some cachedResponse) \<Rightarrow>
             (let (shouldInvalidate, s2) = shouldInvalidateCache h req cachedResponse s1
              in if \<not> shouldInvalidate then (Inr cachedResponse, s2)
                 else asset_network h req (Some cachedResponse) s2))"

definition versioned_try :: "host \<Rightarrow> request \<Rightarrow> state \<Rightarrow> (error + response) \<times> state" where
  "versioned_try h req s =
     (let (t, s1) = Date_now h s;
          (answer, s2) = fetch h (busting_fetch req
             [(''X-Conditional-Bypass'', ''true''), (''X-Cache-Bust'', toString t)]) s1
      in case answer of
           Rejected e \<Rightarrow> (Inl e, s2)
         | Responded networkResponse \<Rightarrow>
             if ok networkResponse
             then (case stamp_bypass_and_put h DYNAMIC_CACHE_NAME req networkResponse s2 of
                     (Inl e, s3) \<Rightarrow> (Inl e, s3)
                   | (Inr u, s3) \<Rightarrow> (Inr networkResponse, s3))
             else (Inr networkResponse, s2))"

definition handleVersionedRequestWithConditionalBypass ::
  "host \<Rightarrow> request \<Rightarrow> state \<Rightarrow> (error + response) \<times> state" where
  "handleVersionedRequestWithConditionalBypass h req s =
     (let s1 = caches_open DYNAMIC_CACHE_NAME s
      in case cache_match h DYNAMIC_CACHE_NAME (req_url req) s1 of
           Inl e \<Rightarrow> (Inl e, s1)
         | Inr (Some cachedResponse) \<Rightarrow>
             (Inr cachedResponse,
              updateCacheInBackgroundWithConditionalBypass_start h req DYNAMIC_CACHE_NAME s1)
         | Inr None \<Rightarrow>
             (case versioned_try h req s1 of
                (Inr networkResponse, s2) \<Rightarrow> (Inr networkResponse, s2)
              | (Inl e, s2) \<Rightarrow> (Inl e, s2)))"

definition default_try :: "host \<Rightarrow> request \<Rightarrow> state \<Rightarrow> (error + response) \<times> state" where
  "default_try h req s =
     (let (answer, s1) = fetch h (plain_fetch req) s
      in case answer of
           Rejected e \<Rightarrow> (Inl e, s1)
         | Responded networkResponse \<Rightarrow>
             if ok networkResponse
             then (case stamp_and_put h STATIC_CACHE_NAME req networkResponse s1 of
                     (Inl e, s2) \<Rightarrow> (Inl e, s2)
                   | (Inr u, s2) \<Rightarrow> (Inr networkResponse, s2))
             else (Inr networkResponse, s1))"

definition handleDefaultRequestWithStaleWhileRevalidate ::
  "host \<Rightarrow> request \<Rightarrow> state \<Rightarrow> (error + response) \<times> state" where
  "handleDefaultRequestWithStaleWhileRevalidate h req s =
     (let s1 = caches_open STATIC_CACHE_NAME s
      in case cache_match h STATIC_CACHE_NAME (req_url req) s1 of
           Inl e \<Rightarrow> (Inl e, s1)
         | Inr (Some cachedResponse) \<Rightarrow>
             (let (isStale, s2) = older_than h (headers_get cachedResponse ''X-Cache-Timestamp'')
                                    staleWhileRevalidateTime s1
              in if isStale
                 then (Inr cachedResponse, updateCacheInBackground_start h req STATIC_CACHE_NAME s2)
                 else (Inr cachedResponse, s2))
         | Inr None \<Rightarrow>
             (case default_try h req s1 of
                (Inr networkResponse, s2) \<Rightarrow> (Inr networkResponse, s2)
              | (Inl e, s2) \<Rightarrow> (Inl e, s2)))"

subsection \<open>The request router\<close>

text \<open>
  The \<^verbatim>\<open>fetch\<close> listener. The chain of tests on \<^verbatim>\<open>request.url\<close> is \<open>classify\<close>,
  the function it then calls is \<open>run_policy\<close>; the listener answers \<open>None\<close> when it
  returns without \<^verbatim>\<open>event.respondWith\<close>.
\<close>

datatype policy =
  NetworkFirstWithCacheBust
| CacheFirstWithSignatureRevalidation
| StaleWhileRevalidateWithConditionalBypass
| DefaultStaleWhileRevalidate

definition classify :: "string \<Rightarrow> policy" where
  "classify u =
     (if str_includes u ''/api/'' then NetworkFirstWithCacheBust
      else if str_includes u ''/assets/'' \<or> str_includes u ''.js'' \<or> str_includes u ''.css''
        then CacheFirstWithSignatureRevalidation
      else if str_includes u ''?v='' \<or> str_includes u ''?cb='' \<or> str_includes u ''?h=''
        then StaleWhileRevalidateWithConditionalBypass
      else DefaultStaleWhileRevalidate)"

definition run_policy :: "policy \<Rightarrow> host \<Rightarrow> request \<Rightarrow> state \<Rightarrow> (error + response) \<times> state" where
  "run_policy p =
     (case p of
        NetworkFirstWithCacheBust \<Rightarrow> handleApiRequestWithCacheBusting
      | CacheFirstWithSignatureRevalidation \<Rightarrow> handleAssetRequestWithSignatureInvalidation
      | StaleWhileRevalidateWithConditionalBypass \<Rightarrow> handleVersionedRequestWithConditionalBypass
      | DefaultStaleWhileRevalidate \<Rightarrow> handleDefaultRequestWithStaleWhileRevalidate)"

definition select_policy :: "string \<Rightarrow> request \<Rightarrow> policy option" where
  "select_policy location_origin req =
     (if req_method req \<noteq> ''GET'' then None
      else if url_origin (req_url req) \<noteq> location_origin then None
      else Some (classify (req_url req)))"

definition fetch_listener ::
  "host \<Rightarrow> string \<Rightarrow> request \<Rightarrow> state \<Rightarrow> ((error + response) \<times> state) option" where
  "fetch_listener h location_origin req s =
     (case select_policy location_origin req of
        None \<Rightarrow> None
      | Some p \<Rightarrow> Some (run_policy p h req s))"

subsection \<open>The cache maintainer\<close>

text \<open>
  Both sweeps are two nested loops inside one \<^verbatim>\<open>try\<close> block. \<open>_keys\<close> is the inner
  loop over the keys of one partition, \<open>_caches\<close> the outer loop over the partitions;
  the first error leaves both loops. \<^verbatim>\<open>response.headers\<close> on a key that has no entry
  any more throws a \<^verbatim>\<open>TypeError\<close>.
\<close>

fun age_sweep_keys :: "host \<Rightarrow> string \<Rightarrow> string list \<Rightarrow> state \<Rightarrow> (error + unit) \<times> state" where
  "age_sweep_keys h name [] s = (Inr (), s)"
| "age_sweep_keys h name (k # ks) s =
     (case cache_match h name k s of
        Inl e \<Rightarrow> (Inl e, s)
      | Inr None \<Rightarrow> (Inl (TypeError ''response is undefined''), s)
      | Inr (Some response) \<Rightarrow>
          (let (old, s1) = older_than h (headers_get response ''X-Cache-Timestamp'') maxCacheAge s
           in if old
              then (case cache_delete h name k s1 of
                      (Inl e, s2) \<Rightarrow> (Inl e, s2)
                    | (Inr _, s2) \<Rightarrow> age_sweep_keys h name ks s2)
              else age_sweep_keys h name ks s1))"

fun age_sweep_caches :: "host \<Rightarrow> string list \<Rightarrow> state \<Rightarrow> (error + unit) \<times> state" where
  "age_sweep_caches h [] s = (Inr (), s)"
| "age_sweep_caches h (name # names) s =
     (let s1 = caches_open name s
      in case age_sweep_keys h name (cache_keys name s1) s1 of
           (Inl e, s2) \<Rightarrow> (Inl e, s2)
         | (Inr _, s2) \<Rightarrow> age_sweep_caches h names s2)"

definition performPeriodicCacheInvalidation :: "host \<Rightarrow> state \<Rightarrow> (error + unit) \<times> state" where
  "performPeriodicCacheInvalidation h s =
     (case age_sweep_caches h (caches_keys s) s of
        (Inl e, s1) \<Rightarrow> (Inr (), console_warn ''Periodic cache invalidation failed:'' s1)
      | (Inr u, s1) \<Rightarrow> (Inr u, s1))"

fun signature_sweep_keys :: "host \<Rightarrow> string \<Rightarrow> string list \<Rightarrow> state \<Rightarrow> (error + unit) \<times> state" where
  "signature_sweep_keys h name [] s = (Inr (), s)"
| "signature_sweep_keys h name (k # ks) s =
     (case cache_match h name k s of
        Inl e \<Rightarrow> (Inl e, s)
      | Inr None \<Rightarrow> (Inl (TypeError ''response is undefined''), s)
      | Inr (Some response) \<Rightarrow>
          (let cachedSignature = headers_get response ''X-Signature'';
               (currentSignature, s1) = generateSignature h k s
           in if truthy cachedSignature \<and> cachedSignature \<noteq> Some currentSignature
              then (case cache_delete h name k s1 of
                      (Inl e, s2) \<Rightarrow> (Inl e, s2)
                    | (Inr _, s2) \<Rightarrow> signature_sweep_keys h name ks s2)
              else signature_sweep_keys h name ks s1))"

fun signature_sweep_caches :: "host \<Rightarrow> string list \<Rightarrow> state \<Rightarrow> (error + unit) \<times> state" where
  "signature_sweep_caches h [] s = (Inr (), s)"
| "signature_sweep_caches h (name # names) s =
     (let s1 = caches_open name s
      in case signature_sweep_keys h name (cache_keys name s1) s1 of
           (Inl e, s2) \<Rightarrow> (Inl e, s2)
         | (Inr _, s2) \<Rightarrow> signature_sweep_caches h names s2)"

definition performPeriodicSignatureInvalidation :: "host \<Rightarrow> state \<Rightarrow> (error + unit) \<times> state" where
  "performPeriodicSignatureInvalidation h s =
     (case signature_sweep_caches h (caches_keys s) s of
        (Inl e, s1) \<Rightarrow> (Inr (), console_warn ''Periodic signature invalidation failed:'' s1)
      | (Inr u, s1) \<Rightarrow> (Inr u, s1))"

subsection \<open>The control channel\<close>

text \<open>
  \<^verbatim>\<open>invalidateCache\<close> and \<^verbatim>\<open>updateCacheSignatures\<close> have no \<^verbatim>\<open>try\<close> block:
  an error of the store, or the \<^verbatim>\<open>TypeError\<close> of \<^verbatim>\<open>headers.set\<close>, rejects them.
  \<open>signatures\<close> is the object of the message, a map from URLs to signature strings;
  \<^verbatim>\<open>a || b\<close> takes \<open>b\<close> when \<open>a\<close> is missing or empty. The argument of
  \<^verbatim>\<open>headers.set\<close> is evaluated before the call.
\<close>

fun invalidate_caches :: "host \<Rightarrow> string \<Rightarrow> string list \<Rightarrow> state \<Rightarrow> (error + unit) \<times> state" where
  "invalidate_caches h u [] s = (Inr (), s)"
| "invalidate_caches h u (name # names) s =
     (case cache_delete h name u (caches_open name s) of
        (Inl e, s1) \<Rightarrow> (Inl e, s1)
      | (Inr _, s1) \<Rightarrow> invalidate_caches h u names s1)"

definition invalidateCache :: "host \<Rightarrow> string \<Rightarrow> state \<Rightarrow> (error + unit) \<times> state" where
  "invalidateCache h u s = invalidate_caches h u (caches_keys s) s"

definition resign_and_put ::
  "host \<Rightarrow> (string \<rightharpoonup> string) \<Rightarrow> string \<Rightarrow> string \<Rightarrow> response \<Rightarrow> state
    \<Rightarrow> (error + unit) \<times> state" where
  "resign_and_put h signatures name k response s =
     (let (signature, s1) =
            (case signatures k of
               None \<Rightarrow> generateSignature h k s
             | Some v \<Rightarrow> if v = [] then generateSignature h k s else (v, s))
      in case headers_set ''X-Signature'' signature response of
           Inl e \<Rightarrow> (Inl e, s1)
         | Inr signed \<Rightarrow>
             (let (t, s2) = Date_now h s1
              in case headers_set ''X-Cache-Timestamp'' (toString t) signed of
                   Inl e \<Rightarrow> (Inl e, s2)
                 | Inr newResponse \<Rightarrow> cache_put h name k newResponse s2))"

fun update_signatures_keys ::
  "host \<Rightarrow> (string \<rightharpoonup> string) \<Rightarrow> string \<Rightarrow> string list \<Rightarrow> state \<Rightarrow> (error + unit) \<times> state" where
  "update_signatures_keys h signatures name [] s = (Inr (), s)"
| "update_signatures_keys h signatures name (k # ks) s =
     (case cache_match h name k s of
        Inl e \<Rightarrow> (Inl e, s)
      | Inr None \<Rightarrow> update_signatures_keys h signatures name ks s
      | Inr (Some response) \<Rightarrow>
          (case resign_and_put h signatures name k response s of
             (Inl e, s1) \<Rightarrow> (Inl e, s1)
           | (Inr _, s1) \<Rightarrow> update_signatures_keys h signatures name ks s1))"

fun update_signatures_caches ::
  "host \<Rightarrow> (string \<rightharpoonup> string) \<Rightarrow> string list \<Rightarrow> state \<Rightarrow> (error + unit) \<times> state" where
  "update_signatures_caches h signatures [] s = (Inr (), s)"
| "update_signatures_caches h signatures (name # names) s =
     (let s1 = caches_open name s
      in case update_signatures_keys h signatures name (cache_keys name s1) s1 of
           (Inl e, s2) \<Rightarrow> (Inl e, s2)
         | (Inr _, s2) \<Rightarrow> update_signatures_caches h signatures names s2)"

definition updateCacheSignatures ::
  "host \<Rightarrow> (string \<rightharpoonup> string) \<Rightarrow> state \<Rightarrow> (error + unit) \<times> state" where
  "updateCacheSignatures h signatures s =
     update_signatures_caches h signatures (caches_keys s) s"

subsection \<open>The classification rules as the specification words them\<close>

text \<open>
  The specification classifies by the parts of the URL: the path (from the end of the
  origin to the first \<^verbatim>\<open>?\<close> or \<^verbatim>\<open>#\<close>) and the query string (from the
  \<^verbatim>\<open>?\<close> to the \<^verbatim>\<open>#\<close>). \<open>spec_classify\<close> follows its four rules word for
  word; it is compared with \<open>classify\<close>, which follows the source.
\<close>

definition url_after_origin :: "string \<Rightarrow> string" where
  "url_after_origin u =
     (case split_scheme [] u of
        None \<Rightarrow> u
      | Some (scheme, rest) \<Rightarrow> dropWhile (\<lambda>c. \<not> is_delim c) rest)"

definition url_path :: "string \<Rightarrow> string" where
  "url_path u = takeWhile (\<lambda>c. c \<noteq> CHR ''?'' \<and> c \<noteq> CHR ''#'') (url_after_origin u)"

definition url_query :: "string \<Rightarrow> string" where
  "url_query u =
     (let rest = dropWhile (\<lambda>c. c \<noteq> CHR ''?'' \<and> c \<noteq> CHR ''#'') (url_after_origin u)
      in if starts_with rest ''?'' then takeWhile (\<lambda>c. c \<noteq> CHR ''#'') (tl rest) else [])"

definition ends_with :: "string \<Rightarrow> string \<Rightarrow> bool" where
  "ends_with s t = starts_with (rev s) (rev t)"

definition spec_classify :: "string \<Rightarrow> policy" where
  "spec_classify u =
     (if str_includes (url_path u) ''/api/'' then NetworkFirstWithCacheBust
      else if str_includes (url_path u) ''/assets/''
              \<or> ends_with (url_path u) ''.js'' \<or> ends_with (url_path u) ''.css''
        then CacheFirstWithSignatureRevalidation
      else if str_includes (url_query u) ''v='' \<or> str_includes (url_query u) ''cb=''
              \<or> str_includes (url_query u) ''h=''
        then StaleWhileRevalidateWithConditionalBypass
      else DefaultStaleWhileRevalidate)"

subsection \<open>Notions used to state the properties\<close>

text \<open>
  \<open>delete_in u n\<close> is what \<^verbatim>\<open>cache.delete(u)\<close> on the partition \<open>n\<close> does to the
  cache storage. \<open>only_ok_entries\<close> says that every stored response has its \<^verbatim>\<open>ok\<close>
  flag set, \<open>settled_ok\<close> that a fetch settled with such a response. \<open>expired T r\<close> is
  the test of the age sweep on the entry \<open>r\<close> when the clock reads \<open>T\<close>. A store is
  reliable when it rejects no operation; \<open>one_entry_per_key\<close> is the invariant of the
  cache storage that a partition holds a key at most once.
\<close>

definition delete_in :: "string \<Rightarrow> string \<Rightarrow> (string \<times> (string \<times> response) list) list
    \<Rightarrow> (string \<times> (string \<times> response) list) list" where
  "delete_in u n cs = AList.map_entry n (AList.delete u) cs"

definition only_ok_entries :: "state \<Rightarrow> bool" where
  "only_ok_entries s = list_all (\<lambda>(name, es). list_all (\<lambda>(u, r). ok r) es) (caches s)"

definition settled_ok :: "fetch_result \<Rightarrow> bool" where
  "settled_ok settled = (case settled of Rejected e \<Rightarrow> False | Responded r \<Rightarrow> ok r)"

definition expired :: "int \<Rightarrow> response \<Rightarrow> bool" where
  "expired T r =
     (case headers_get r ''X-Cache-Timestamp'' of
        None \<Rightarrow> False
      | Some v \<Rightarrow> v \<noteq> [] \<and> (case parseInt v of None \<Rightarrow> False | Some p \<Rightarrow> T - p > maxCacheAge))"

definition reliable_store :: "host \<Rightarrow> bool" where
  "reliable_store h = (\<forall>op n u. \<not> rejects h op n u)"

definition one_entry_per_key :: "state \<Rightarrow> bool" where
  "one_entry_per_key s = (\<forall>n. distinct (cache_keys n s))"

subsection \<open>Concrete hosts, requests and states\<close>

text \<open>
  The instances on which the theorems below are evaluated. The clock stands at
  1700000000000 ms, in the 5-minute bucket 5666666.
\<close>

definition frozen_clock :: "nat \<Rightarrow> int" where
  "frozen_clock n = 1700000000000"

definition offline_host :: host where
  "offline_host =
     \<lparr>clock = frozen_clock,
      net = (\<lambda>n c. Rejected (NetworkError ''Failed to fetch'')),
      rejects = (\<lambda>op name u. False)\<rparr>"

definition server_error :: response where
  "server_error = \<lparr>ok = False, headers = [], body = ''Internal Server Error'', headers_guard = Immutable\<rparr>"

definition server_error_host :: host where
  "server_error_host =
     \<lparr>clock = frozen_clock,
      net = (\<lambda>n c. Responded server_error),
      rejects = (\<lambda>op name u. False)\<rparr>"

definition new_app_js :: response where
  "new_app_js =
     \<lparr>ok = True, headers = [(''Content-Type'', ''text/javascript'')], body = ''console.log(2)'',
      headers_guard = Immutable\<rparr>"

definition online_host :: host where
  "online_host =
     \<lparr>clock = frozen_clock,
      net = (\<lambda>n c. Responded new_app_js),
      rejects = (\<lambda>op name u. False)\<rparr>"

definition state_of :: "(string \<times> (string \<times> response) list) list \<Rightarrow> state" where
  "state_of cs = \<lparr>caches = cs, ticks = 0, fetches = [], pending = [], warnings = []\<rparr>"

definition app_js :: request where
  "app_js = \<lparr>req_method = ''GET'', req_url = ''https://example.com/assets/app.js''\<rparr>"

definition signed_entry :: response where
  "signed_entry =
     \<lparr>ok = True,
      headers = [(''X-Signature'', ''https://example.com/assets/app.js_5666666''),
                 (''X-Cache-Timestamp'', ''1699999990000'')],
      body = ''console.log(1)'', headers_guard = Immutable\<rparr>"

definition unsigned_entry :: response where
  "unsigned_entry =
     \<lparr>ok = True, headers = [(''Content-Type'', ''text/javascript'')], body = ''console.log(1)'', headers_guard = Immutable\<rparr>"

definition page_v2 :: request where
  "page_v2 = \<lparr>req_method = ''GET'', req_url = ''https://example.com/page?v=2''\<rparr>"

definition api_data :: request where
  "api_data = \<lparr>req_method = ''GET'', req_url = ''https://example.com/api/data''\<rparr>"

definition old_entry :: response where
  "old_entry =
     \<lparr>ok = True, headers = [(''X-Cache-Timestamp'', ''1699900000000'')], body = ''{}'', headers_guard = Immutable\<rparr>"

definition fresh_entry :: response where
  "fresh_entry =
     \<lparr>ok = True, headers = [(''X-Cache-Timestamp'', ''1699999990000'')], body = ''{}'', headers_guard = Immutable\<rparr>"

definition three_entries :: state where
  "three_entries = state_of [(STATIC_CACHE_NAME,
      [(''https://example.com/a'', old_entry), (''https://example.com/b'', fresh_entry),
       (''https://example.com/c'', unsigned_entry)])]"

definition flaky_host :: host where
  "flaky_host =
     \<lparr>clock = frozen_clock,
      net = (\<lambda>n c. Rejected (NetworkError ''Failed to fetch'')),
      rejects = (\<lambda>op name u. op = OpMatch \<and> u = ''https://example.com/a'')\<rparr>"

definition outdated_entry :: response where
  "outdated_entry =
     \<lparr>ok = True,
      headers = [(''X-Cache-Timestamp'', ''1699900000000''),
                 (''X-Signature'', ''https://example.com/b_5000000'')],
      body = ''b'', headers_guard = Immutable\<rparr>"

definition two_outdated :: state where
  "two_outdated = state_of [(STATIC_CACHE_NAME,
      [(''https://example.com/a'', outdated_entry), (''https://example.com/b'', outdated_entry)])]"

definition sig_42 :: "string \<rightharpoonup> string" where
  "sig_42 = [''https://example.com/a'' \<mapsto> ''sig-42'']"

section \<open>Basic facts\<close>

subsection \<open>Substrings\<close>

lemma starts_with_iff: "starts_with s t \<longleftrightarrow> (\<exists>b. s = t @ b)"
  by (induction s t rule: starts_with.induct) auto

lemma str_includes_iff: "str_includes s t \<longleftrightarrow> (\<exists>a b. s = a @ t @ b)"
proof (induction s)
  case Nil
  then show ?case by auto
next
  case (Cons d s)
  show ?case
  proof
    assume "str_includes (d # s) t"
    then consider "starts_with (d # s) t" | "str_includes s t" by auto
    then show "\<exists>a b. d # s = a @ t @ b"
    proof cases
      case 1
      then obtain b where "d # s = t @ b" by (auto simp: starts_with_iff)
      then have "d # s = [] @ t @ b" by simp
      then show ?thesis by blast
    next
      case 2
      then obtain a b where "s = a @ t @ b" using Cons.IH by blast
      then have "d # s = (d # a) @ t @ b" by simp
      then show ?thesis by blast
    qed
  next
    assume "\<exists>a b. d # s = a @ t @ b"
    then obtain a b where ab: "d # s = a @ t @ b" by blast
    show "str_includes (d # s) t"
    proof (cases a)
      case Nil
      with ab have "starts_with (d # s) t" by (auto simp: starts_with_iff)
      then show ?thesis by simp
    next
      case (Cons x a')
      with ab have "s = a' @ t @ b" by simp
      then have "str_includes s t" using Cons.IH by blast
      then show ?thesis by simp
    qed
  qed
qed

subsection \<open>Opening a partition changes no entry\<close>

lemma cache_entries_caches_open [simp]:
  "cache_entries (caches_open m s) n = cache_entries s n"
proof (cases "m \<in> fst ` set (caches s)")
  case True
  then show ?thesis by (simp add: caches_open_def caches_keys_def)
next
  case False
  then have "map_of (caches s) m = None" by (simp add: map_of_eq_None_iff)
  with False show ?thesis
    by (auto simp add: cache_entries_def caches_open_def caches_keys_def map_add_def
          split: option.splits)
qed

lemma cache_lookup_caches_open [simp]:
  "cache_lookup (caches_open m s) n u = cache_lookup s n u"
  by (simp add: cache_lookup_def)

lemma cache_match_caches_open [simp]:
  "cache_match h n u (caches_open m s) = cache_match h n u s"
  by (simp add: cache_match_def)

lemma caches_open_fields [simp]:
  "ticks (caches_open m s) = ticks s"
  "fetches (caches_open m s) = fetches s"
  "pending (caches_open m s) = pending s"
  "warnings (caches_open m s) = warnings s"
  by (simp_all add: caches_open_def)

subsection \<open>A resumed background task never rejects\<close>

lemma resume_task_fulfils: "fst (resume_task h t s) = Inr ()"
  by (cases "t_kind t")
     (auto simp: resume_task_def refreshCacheInBackground_resume_def
        updateCacheInBackgroundWithConditionalBypass_resume_def updateCacheInBackground_resume_def
        split: prod.splits sum.splits)

subsection \<open>Fields that the cache storage does not depend on\<close>

lemma cache_entries_upd [simp]:
  "cache_entries (ticks_update f s) = cache_entries s"
  "cache_entries (fetches_update g s) = cache_entries s"
  "cache_entries (pending_update p s) = cache_entries s"
  "cache_entries (warnings_update w s) = cache_entries s"
  by (simp_all add: cache_entries_def fun_eq_iff)

lemma cache_lookup_upd [simp]:
  "cache_lookup (ticks_update f s) = cache_lookup s"
  "cache_lookup (fetches_update g s) = cache_lookup s"
  "cache_lookup (pending_update p s) = cache_lookup s"
  "cache_lookup (warnings_update w s) = cache_lookup s"
  by (simp_all add: cache_lookup_def fun_eq_iff)

lemma cache_match_upd [simp]:
  "cache_match h n u (ticks_update f s) = cache_match h n u s"
  "cache_match h n u (fetches_update g s) = cache_match h n u s"
  "cache_match h n u (pending_update p s) = cache_match h n u s"
  "cache_match h n u (warnings_update w s) = cache_match h n u s"
  by (simp_all add: cache_match_def)

lemma caches_keys_upd [simp]:
  "caches_keys (ticks_update f s) = caches_keys s"
  "caches_keys (fetches_update g s) = caches_keys s"
  "caches_keys (pending_update p s) = caches_keys s"
  "caches_keys (warnings_update w s) = caches_keys s"
  by (simp_all add: caches_keys_def)

lemma map_fst_map_entry [simp]: "map fst (AList.map_entry k f al) = map fst al"
  by (induction al) auto

lemma caches_open_present: "n \<in> set (caches_keys s) \<Longrightarrow> caches_open n s = s"
  by (simp add: caches_open_def)

subsection \<open>Responses handed out by the host\<close>

lemma from_host_fields [simp]:
  "ok (from_host r) = ok r"
  "headers (from_host r) = headers r"
  "body (from_host r) = body r"
  "headers_guard (from_host r) = Immutable"
  "headers_get (from_host r) name = headers_get r name"
  by (simp_all add: from_host_def headers_get_def)

lemma from_host_immutable: "headers_guard r = Immutable \<Longrightarrow> from_host r = r"
  by (simp add: from_host_def)

subsection \<open>The staleness test\<close>

lemma older_than_fst:
  "fst (older_than h ts limit s) =
     (\<exists>v p. ts = Some v \<and> v \<noteq> [] \<and> parseInt v = Some p \<and> clock h (ticks s) - p > limit)"
  by (auto simp: older_than_def Date_now_def split: option.splits)

lemma older_than_snd:
  "snd (older_than h ts limit s) = (if truthy ts then s\<lparr>ticks := Suc (ticks s)\<rparr> else s)"
  by (auto simp: older_than_def Date_now_def truthy_def split: option.splits)

lemma older_than_expired:
  "fst (older_than h (headers_get r ''X-Cache-Timestamp'') maxCacheAge s) = expired (clock h (ticks s)) r"
  by (auto simp: older_than_def expired_def Date_now_def split: option.splits)

lemma older_than_state [simp]:
  "cache_entries (snd (older_than h ts limit s)) = cache_entries s"
  "caches_keys (snd (older_than h ts limit s)) = caches_keys s"
  "caches (snd (older_than h ts limit s)) = caches s"
  by (auto simp: older_than_def Date_now_def split: option.splits)

subsection \<open>Deleting one key from every partition\<close>

lemma map_entry_commute:
  "AList.map_entry n f (AList.map_entry m f al) = AList.map_entry m f (AList.map_entry n f al)"
  by (induction al) auto

lemma map_entry_idem:
  "(\<And>v. f (f v) = f v) \<Longrightarrow> AList.map_entry n f (AList.map_entry n f al) = AList.map_entry n f al"
  by (induction al) auto

lemma delete_in_commute: "delete_in u n (delete_in u m cs) = delete_in u m (delete_in u n cs)"
  by (simp add: delete_in_def map_entry_commute)

lemma delete_in_idem: "delete_in u n (delete_in u n cs) = delete_in u n cs"
  by (simp add: delete_in_def map_entry_idem AList.delete_idem)

lemma delete_in_fold_commute:
  "delete_in u n (fold (delete_in u) ns cs) = fold (delete_in u) ns (delete_in u n cs)"
  by (induction ns arbitrary: cs) (simp_all add: delete_in_commute)

lemma delete_in_absorbed:
  "n \<in> set ns \<Longrightarrow> delete_in u n (fold (delete_in u) ns cs) = fold (delete_in u) ns cs"
proof (induction ns arbitrary: cs)
  case Nil
  then show ?case by simp
next
  case (Cons m ns)
  show ?case
  proof (cases "n = m")
    case True
    then show ?thesis by (simp add: delete_in_fold_commute delete_in_idem)
  next
    case False
    with Cons show ?thesis by simp
  qed
qed

lemma fold_delete_in_absorbed:
  "set ms \<subseteq> set ns \<Longrightarrow> fold (delete_in u) ms (fold (delete_in u) ns cs) = fold (delete_in u) ns cs"
proof (induction ms)
  case Nil
  then show ?case by simp
next
  case (Cons m ms)
  then show ?case by (simp add: delete_in_absorbed)
qed

lemma map_fst_fold_delete_in [simp]: "map fst (fold (delete_in u) ns cs) = map fst cs"
  by (induction ns arbitrary: cs) (simp_all add: delete_in_def)

text \<open>
  The loop of \<^verbatim>\<open>invalidateCache\<close> in closed form: it deletes in the partitions that
  come before the first one whose delete is rejected, and rejects with that error.
\<close>

lemma invalidate_caches_eq:
  "set ns \<subseteq> set (caches_keys s) \<Longrightarrow>
   invalidate_caches h u ns s =
     (case find (\<lambda>n. rejects h OpDelete n u) ns of
        None \<Rightarrow> Inr ()
      | Some bad \<Rightarrow> Inl (StoreError OpDelete bad u),
      s\<lparr>caches := fold (delete_in u) (takeWhile (\<lambda>n. \<not> rejects h OpDelete n u) ns) (caches s)\<rparr>)"
proof (induction ns arbitrary: s)
  case Nil
  then show ?case by simp
next
  case (Cons n ns)
  then have n: "caches_open n s = s" by (simp add: caches_open_present)
  show ?case
  proof (cases "rejects h OpDelete n u")
    case True
    then show ?thesis by (simp add: n cache_delete_def)
  next
    case False
    let ?s1 = "s\<lparr>caches := delete_in u n (caches s)\<rparr>"
    have keys: "caches_keys ?s1 = caches_keys s" by (simp add: caches_keys_def delete_in_def)
    have "invalidate_caches h u (n # ns) s = invalidate_caches h u ns ?s1"
      using False by (simp add: n cache_delete_def delete_in_def)
    also have "\<dots> = (case find (\<lambda>n. rejects h OpDelete n u) ns of
        None \<Rightarrow> Inr ()
      | Some bad \<Rightarrow> Inl (StoreError OpDelete bad u),
      ?s1\<lparr>caches := fold (delete_in u) (takeWhile (\<lambda>n. \<not> rejects h OpDelete n u) ns) (caches ?s1)\<rparr>)"
      using Cons.prems by (intro Cons.IH) (simp add: keys)
    finally show ?thesis using False by simp
  qed
qed

lemma invalidateCache_eq:
  "invalidateCache h u s =
     (case find (\<lambda>n. rejects h OpDelete n u) (caches_keys s) of
        None \<Rightarrow> Inr ()
      | Some bad \<Rightarrow> Inl (StoreError OpDelete bad u),
      s\<lparr>caches := fold (delete_in u)
            (takeWhile (\<lambda>n. \<not> rejects h OpDelete n u) (caches_keys s)) (caches s)\<rparr>)"
  by (simp add: invalidateCache_def invalidate_caches_eq)

subsection \<open>Only ok responses are stored\<close>

lemma only_ok_entries_upd [simp]:
  "only_ok_entries (ticks_update f s) = only_ok_entries s"
  "only_ok_entries (fetches_update g s) = only_ok_entries s"
  "only_ok_entries (pending_update p s) = only_ok_entries s"
  "only_ok_entries (warnings_update w s) = only_ok_entries s"
  by (simp_all add: only_ok_entries_def)

lemma only_ok_entries_caches_open [simp]:
  "only_ok_entries (caches_open n s) = only_ok_entries s"
  by (simp add: only_ok_entries_def caches_open_def)

lemma list_all_update:
  "list_all P al \<Longrightarrow> P (k, v) \<Longrightarrow> list_all P (AList.update k v al)"
  by (induction al) auto

lemma list_all_map_entry:
  "list_all (\<lambda>(n, es). Q es) cs \<Longrightarrow> (\<And>es. Q es \<Longrightarrow> Q (f es)) \<Longrightarrow>
   list_all (\<lambda>(n, es). Q es) (AList.map_entry k f cs)"
  by (induction cs) auto

lemma only_ok_entries_put:
  "only_ok_entries s \<Longrightarrow> ok r \<Longrightarrow> only_ok_entries (cache_put_unawaited h n u r s)"
  unfolding only_ok_entries_def cache_put_unawaited_def cache_put_def
  by (auto intro!: list_all_map_entry list_all_update)

lemma headers_set_ok: "headers_set k v r = Inr r' \<Longrightarrow> ok r' = ok r"
  by (auto simp: headers_set_def split: if_splits)

lemma headers_set_immutable:
  "headers_guard r = Immutable \<Longrightarrow> \<exists>e. headers_set k v r = Inl e"
  by (simp add: headers_set_def)

lemma headers_set_from_host: "\<exists>e. headers_set k v (from_host r) = Inl e"
  by (simp add: headers_set_immutable)

lemma only_ok_entries_stamp_and_put:
  "only_ok_entries s \<Longrightarrow> ok r \<Longrightarrow> only_ok_entries (snd (stamp_and_put h n req r s))"
  by (auto simp: stamp_and_put_def Date_now_def only_ok_entries_put headers_set_ok
        split: sum.splits)

lemma only_ok_entries_stamp_bypass_and_put:
  "only_ok_entries s \<Longrightarrow> ok r \<Longrightarrow> only_ok_entries (snd (stamp_bypass_and_put h n req r s))"
  by (auto simp: stamp_bypass_and_put_def Date_now_def only_ok_entries_put headers_set_ok
        split: sum.splits)

lemma only_ok_entries_sign_stamp_and_put:
  "only_ok_entries s \<Longrightarrow> ok r \<Longrightarrow> only_ok_entries (snd (sign_stamp_and_put h n req r s))"
  by (auto simp: sign_stamp_and_put_def generateSignature_def Date_now_def only_ok_entries_put
        headers_set_ok Let_def split: sum.splits)

text \<open>
  Each \<^verbatim>\<open>try\<close> block and each background refresh keeps the invariant, and leaves the
  cache storage as it is when its fetch does not settle with an \<^verbatim>\<open>ok\<close> response.
\<close>

lemma only_ok_entries_older_than [simp]:
  "only_ok_entries (snd (older_than h ts limit s)) = only_ok_entries s"
  by (simp add: only_ok_entries_def)

lemmas try_defs = api_try_def asset_try_def versioned_try_def default_try_def

lemma try_only_ok:
  assumes "only_ok_entries s"
  shows "only_ok_entries (snd (api_try h req s))"
    and "only_ok_entries (snd (asset_try h req s))"
    and "only_ok_entries (snd (versioned_try h req s))"
    and "only_ok_entries (snd (default_try h req s))"
proof -
  have a: "only_ok_entries (snd (stamp_and_put h n req r s'))"
    if "only_ok_entries s'" "ok r" for n r s'
    using that by (rule only_ok_entries_stamp_and_put)
  have b: "only_ok_entries (snd (stamp_bypass_and_put h n req r s'))"
    if "only_ok_entries s'" "ok r" for n r s'
    using that by (rule only_ok_entries_stamp_bypass_and_put)
  have c: "only_ok_entries (snd (sign_stamp_and_put h n req r s'))"
    if "only_ok_entries s'" "ok r" for n r s'
    using that by (rule only_ok_entries_sign_stamp_and_put)
  show "only_ok_entries (snd (api_try h req s))"
    using assms a [of "s\<lparr>ticks := Suc (ticks s), fetches := fetches s @ [c]\<rparr>" for c]
    by (auto simp: api_try_def fetch_def Date_now_def Let_def split_def
          split: fetch_result.splits sum.splits prod.splits)
  show "only_ok_entries (snd (asset_try h req s))"
    using assms c [of "s\<lparr>ticks := Suc (ticks s), fetches := fetches s @ [c]\<rparr>" for c]
    by (auto simp: asset_try_def fetch_def generateSignature_def Date_now_def Let_def split_def
          split: fetch_result.splits sum.splits prod.splits)
  show "only_ok_entries (snd (versioned_try h req s))"
    using assms b [of "s\<lparr>ticks := Suc (ticks s), fetches := fetches s @ [c]\<rparr>" for c]
    by (auto simp: versioned_try_def fetch_def Date_now_def Let_def split_def
          split: fetch_result.splits sum.splits prod.splits)
  show "only_ok_entries (snd (default_try h req s))"
    using assms a [of "s\<lparr>fetches := fetches s @ [c]\<rparr>" for c]
    by (auto simp: default_try_def fetch_def Let_def split_def
          split: fetch_result.splits sum.splits prod.splits)
qed

lemma await_fetch_not_ok:
  "\<not> settled_ok (net h n c) \<Longrightarrow> await_fetch h n c = Responded r \<Longrightarrow> \<not> ok r"
  by (auto simp: settled_ok_def await_fetch_def from_host_def split: fetch_result.splits)

lemma try_not_ok:
  assumes "\<forall>c. \<not> settled_ok (net h (length (fetches s)) c)"
  shows "cache_lookup (snd (api_try h req s)) = cache_lookup s"
    and "cache_lookup (snd (asset_try h req s)) = cache_lookup s"
    and "cache_lookup (snd (versioned_try h req s)) = cache_lookup s"
    and "cache_lookup (snd (default_try h req s)) = cache_lookup s"
  using assms await_fetch_not_ok [of h "length (fetches s)"]
  by (auto simp: try_defs fetch_def generateSignature_def Date_now_def Let_def split_def
        split: fetch_result.splits sum.splits prod.splits)

lemmas policy_defs =
  handleApiRequestWithCacheBusting_def handleAssetRequestWithSignatureInvalidation_def
  handleVersionedRequestWithConditionalBypass_def handleDefaultRequestWithStaleWhileRevalidate_def
  api_catch_def asset_network_def shouldInvalidateCache_def generateSignature_def Date_now_def
  refreshCacheInBackground_start_def updateCacheInBackgroundWithConditionalBypass_start_def
  updateCacheInBackground_start_def fetch_detached_def older_than_snd Let_def split_def

lemmas resume_defs =
  resume_task_def refreshCacheInBackground_resume_def refreshCacheInBackground_try_def
  updateCacheInBackgroundWithConditionalBypass_resume_def
  updateCacheInBackgroundWithConditionalBypass_try_def
  updateCacheInBackground_resume_def updateCacheInBackground_try_def console_warn_def

lemma api_catch_only_ok:
  "only_ok_entries s \<Longrightarrow> only_ok_entries (snd (api_catch h req e s))"
  by (auto simp: policy_defs split: sum.splits option.splits)

lemma asset_network_only_ok:
  assumes "only_ok_entries s"
  shows "only_ok_entries (snd (asset_network h req c s))"
proof -
  obtain x s1 where t: "asset_try h req s = (x, s1)" by (cases "asset_try h req s")
  with try_only_ok(2) [OF assms, of h req] have "only_ok_entries s1" by simp
  with t show ?thesis by (auto simp: asset_network_def split: sum.splits option.splits)
qed

lemma run_policy_only_ok:
  assumes "only_ok_entries s"
  shows "only_ok_entries (snd (run_policy p h req s))"
proof (cases p)
  case NetworkFirstWithCacheBust
  obtain x s1 where t: "api_try h req (caches_open API_CACHE_NAME s) = (x, s1)"
    by (cases "api_try h req (caches_open API_CACHE_NAME s)")
  with try_only_ok(1) [of "caches_open API_CACHE_NAME s" h req] assms
  have "only_ok_entries s1" by simp
  with t NetworkFirstWithCacheBust show ?thesis
    by (cases x) (simp_all add: run_policy_def handleApiRequestWithCacheBusting_def
          api_catch_only_ok)
next
  case CacheFirstWithSignatureRevalidation
  with assms show ?thesis
    by (auto simp: run_policy_def handleAssetRequestWithSignatureInvalidation_def
          shouldInvalidateCache_def generateSignature_def Date_now_def Let_def split_def
          asset_network_only_ok split: sum.splits option.splits)
next
  case StaleWhileRevalidateWithConditionalBypass
  obtain x s1 where t: "versioned_try h req (caches_open DYNAMIC_CACHE_NAME s) = (x, s1)"
    by (cases "versioned_try h req (caches_open DYNAMIC_CACHE_NAME s)")
  with try_only_ok(3) [of "caches_open DYNAMIC_CACHE_NAME s" h req] assms
  have "only_ok_entries s1" by simp
  with t assms StaleWhileRevalidateWithConditionalBypass show ?thesis
    by (cases x) (auto simp: run_policy_def handleVersionedRequestWithConditionalBypass_def
          updateCacheInBackgroundWithConditionalBypass_start_def fetch_detached_def Date_now_def
          Let_def split_def split: sum.splits option.splits)
next
  case DefaultStaleWhileRevalidate
  obtain x s1 where t: "default_try h req (caches_open STATIC_CACHE_NAME s) = (x, s1)"
    by (cases "default_try h req (caches_open STATIC_CACHE_NAME s)")
  with try_only_ok(4) [of "caches_open STATIC_CACHE_NAME s" h req] assms
  have "only_ok_entries s1" by simp
  with t assms DefaultStaleWhileRevalidate show ?thesis
    by (cases x) (auto simp: run_policy_def handleDefaultRequestWithStaleWhileRevalidate_def
          updateCacheInBackground_start_def fetch_detached_def Let_def split_def
          split: sum.splits option.splits)
qed

lemma resume_task_only_ok:
  assumes "only_ok_entries s"
  shows "only_ok_entries (snd (resume_task h t s))"
proof -
  have a: "only_ok_entries s'" if "stamp_and_put h n req r s = (x, s')" "ok r" for n req r x s'
    using only_ok_entries_stamp_and_put [OF assms that(2), of h n req] that(1) by simp
  have b: "only_ok_entries s'" if "stamp_bypass_and_put h n req r s = (x, s')" "ok r"
    for n req r x s'
    using only_ok_entries_stamp_bypass_and_put [OF assms that(2), of h n req] that(1) by simp
  show ?thesis
    using assms
    by (cases "t_kind t")
       (auto simp: resume_defs dest: a b split: fetch_result.splits sum.splits prod.splits)
qed

lemma api_catch_lookup:
  "cache_lookup (snd (api_catch h req e s)) = cache_lookup s"
  by (auto simp: policy_defs split: sum.splits option.splits)

lemma asset_network_not_ok:
  assumes "\<forall>c. \<not> settled_ok (net h (length (fetches s)) c)"
  shows "cache_lookup (snd (asset_network h req c s)) = cache_lookup s"
proof -
  obtain x s1 where t: "asset_try h req s = (x, s1)" by (cases "asset_try h req s")
  with try_not_ok(2) [OF assms, of req] have "cache_lookup s1 = cache_lookup s" by simp
  with t show ?thesis by (auto simp: asset_network_def split: sum.splits option.splits)
qed

lemma run_policy_not_ok:
  assumes "\<forall>c. \<not> settled_ok (net h (length (fetches s)) c)"
  shows "cache_lookup (snd (run_policy p h req s)) = cache_lookup s"
proof (cases p)
  case NetworkFirstWithCacheBust
  obtain x s1 where t: "api_try h req (caches_open API_CACHE_NAME s) = (x, s1)"
    by (cases "api_try h req (caches_open API_CACHE_NAME s)")
  with try_not_ok(1) [of h "caches_open API_CACHE_NAME s" req] assms
  have "cache_lookup s1 = cache_lookup s" by (simp add: fun_eq_iff)
  with t NetworkFirstWithCacheBust show ?thesis
    by (cases x) (simp_all add: run_policy_def handleApiRequestWithCacheBusting_def
          api_catch_lookup)
next
  case CacheFirstWithSignatureRevalidation
  have "cache_lookup (snd (asset_network h req c s')) = cache_lookup s"
    if "fetches s' = fetches s" "cache_lookup s' = cache_lookup s" for c s'
    using asset_network_not_ok [of h s' req c] assms that by simp
  with CacheFirstWithSignatureRevalidation show ?thesis
    by (auto simp: run_policy_def handleAssetRequestWithSignatureInvalidation_def
          shouldInvalidateCache_def generateSignature_def Date_now_def Let_def split_def
          fun_eq_iff split: sum.splits option.splits)
next
  case StaleWhileRevalidateWithConditionalBypass
  obtain x s1 where t: "versioned_try h req (caches_open DYNAMIC_CACHE_NAME s) = (x, s1)"
    by (cases "versioned_try h req (caches_open DYNAMIC_CACHE_NAME s)")
  with try_not_ok(3) [of h "caches_open DYNAMIC_CACHE_NAME s" req] assms
  have "cache_lookup s1 = cache_lookup s" by (simp add: fun_eq_iff)
  with t StaleWhileRevalidateWithConditionalBypass show ?thesis
    by (cases x) (auto simp: run_policy_def handleVersionedRequestWithConditionalBypass_def
          updateCacheInBackgroundWithConditionalBypass_start_def fetch_detached_def Date_now_def
          Let_def split_def fun_eq_iff split: sum.splits option.splits)
next
  case DefaultStaleWhileRevalidate
  obtain x s1 where t: "default_try h req (caches_open STATIC_CACHE_NAME s) = (x, s1)"
    by (cases "default_try h req (caches_open STATIC_CACHE_NAME s)")
  with try_not_ok(4) [of h "caches_open STATIC_CACHE_NAME s" req] assms
  have "cache_lookup s1 = cache_lookup s" by (simp add: fun_eq_iff)
  with t DefaultStaleWhileRevalidate show ?thesis
    by (cases x) (auto simp: run_policy_def handleDefaultRequestWithStaleWhileRevalidate_def
          updateCacheInBackground_start_def fetch_detached_def older_than_snd Let_def split_def
          fun_eq_iff split: sum.splits option.splits)
qed

lemma resume_task_not_ok:
  "\<not> settled_ok (net h (t_fetch t) (t_call t)) \<Longrightarrow>
   cache_lookup (snd (resume_task h t s)) = cache_lookup s"
  using await_fetch_not_ok [of h "t_fetch t" "t_call t"]
  by (cases "t_kind t") (auto simp: resume_defs split: fetch_result.splits)

subsection \<open>The inner loop of the age sweep in closed form\<close>

lemma cache_entries_delete:
  "caches s2 = AList.map_entry n (AList.delete k) (caches s) \<Longrightarrow>
   cache_entries s2 n' = (if n' = n then AList.delete k (cache_entries s n) else cache_entries s n')"
  by (auto simp: cache_entries_def map_of_map_entry AList.delete_eq split: option.splits)

lemma sweep_filter_combine:
  "filter (\<lambda>(k', r'). \<not> (k' \<in> set ks \<and> Q r')) (filter (\<lambda>(k', r'). \<not> (k' = k \<and> Q r')) al) =
   filter (\<lambda>(k', r'). \<not> (k' \<in> set (k # ks) \<and> Q r')) al"
  by (induction al) auto

lemma delete_as_filter:
  assumes "distinct (map fst al)" and "map_of al k = Some r" and "Q r"
  shows "AList.delete k al = filter (\<lambda>(k', r'). \<not> (k' = k \<and> Q r')) al"
proof -
  have "\<And>k' r'. (k', r') \<in> set al \<Longrightarrow> (k \<noteq> k') = (\<not> (k' = k \<and> Q r'))"
    using assms by (auto dest: eq_key_imp_eq_value)
  then show ?thesis
    unfolding AList.delete_eq by (intro filter_cong) auto
qed

lemma filter_skip:
  assumes "distinct (map fst al)" and "map_of al k = Some r" and "\<not> Q r"
  shows "al = filter (\<lambda>(k', r'). \<not> (k' = k \<and> Q r')) al"
proof -
  have "\<forall>x \<in> set al. (\<lambda>(k', r'). \<not> (k' = k \<and> Q r')) x"
    using assms by (auto dest: eq_key_imp_eq_value)
  then have "filter (\<lambda>(k', r'). \<not> (k' = k \<and> Q r')) al = al"
    by (simp only: filter_id_conv)
  then show ?thesis by simp
qed

lemma filter_keeps_keys:
  "k \<notin> set ks \<Longrightarrow> set ks \<subseteq> fst ` set al \<Longrightarrow>
   set ks \<subseteq> fst ` set (filter (\<lambda>(k', r'). \<not> (k' = k \<and> Q r')) al)"
proof
  fix x
  assume a: "k \<notin> set ks" "set ks \<subseteq> fst ` set al" "x \<in> set ks"
  then obtain r where "(x, r) \<in> set al" by auto
  moreover have "x \<noteq> k" using a by auto
  ultimately have "(x, r) \<in> set (filter (\<lambda>(k', r'). \<not> (k' = k \<and> Q r')) al)" by simp
  then show "x \<in> fst ` set (filter (\<lambda>(k', r'). \<not> (k' = k \<and> Q r')) al)"
    by (rule image_eqI [rotated]) simp
qed

lemma age_sweep_keys_closed:
  assumes "\<forall>i. clock h i = T" and "reliable_store h"
  shows "distinct (cache_keys n s) \<Longrightarrow> distinct ks \<Longrightarrow> set ks \<subseteq> set (cache_keys n s) \<Longrightarrow>
    fst (age_sweep_keys h n ks s) = Inr ()
    \<and> caches_keys (snd (age_sweep_keys h n ks s)) = caches_keys s
    \<and> (\<forall>n'. cache_entries (snd (age_sweep_keys h n ks s)) n' =
         (if n' = n then filter (\<lambda>(k, r). \<not> (k \<in> set ks \<and> expired T r)) (cache_entries s n)
          else cache_entries s n'))"
proof (induction ks arbitrary: s)
  case Nil
  then show ?case by simp
next
  case (Cons k ks)
  from Cons.prems have "k \<in> fst ` set (cache_entries s n)" by (simp add: cache_keys_def)
  then obtain r where r: "cache_lookup s n k = Some r"
    by (cases "cache_lookup s n k") (simp_all add: cache_lookup_def map_of_eq_None_iff)
  have al: "distinct (map fst (cache_entries s n))" "map_of (cache_entries s n) k = Some r"
    using Cons.prems r by (simp_all add: cache_keys_def cache_lookup_def)
  define s1 where "s1 = snd (older_than h (headers_get r ''X-Cache-Timestamp'') maxCacheAge s)"
  have s1: "caches s1 = caches s" by (simp add: s1_def)
  have old: "fst (older_than h (headers_get r ''X-Cache-Timestamp'') maxCacheAge s) = expired T r"
    using assms by (simp add: older_than_expired)
  have m: "cache_match h n k s = Inr (Some (from_host r))"
    using assms r by (simp add: cache_match_def reliable_store_def)
  define s2 where "s2 = (if expired T r
     then s1\<lparr>caches := AList.map_entry n (AList.delete k) (caches s1)\<rparr> else s1)"
  have step: "age_sweep_keys h n (k # ks) s = age_sweep_keys h n ks s2"
    using assms old m
    by (simp add: split_def cache_delete_def reliable_store_def s1_def s2_def)
  have e2: "cache_entries s2 n' =
        (if n' = n then filter (\<lambda>(k', r'). \<not> (k' = k \<and> expired T r')) (cache_entries s n)
         else cache_entries s n')" for n'
  proof (cases "expired T r")
    case True
    then have "caches s2 = AList.map_entry n (AList.delete k) (caches s)"
      by (simp add: s2_def s1)
    from cache_entries_delete [OF this] delete_as_filter [where Q = "expired T", OF al True]
    show ?thesis by simp
  next
    case False
    then have "cache_entries s2 n' = cache_entries s n'"
      by (simp add: s2_def s1 cache_entries_def)
    with filter_skip [where Q = "expired T", OF al False] show ?thesis by simp
  qed
  have k2: "caches_keys s2 = caches_keys s"
    by (simp add: s2_def s1 caches_keys_def)
  have "distinct (map fst (filter (\<lambda>(k', r'). \<not> (k' = k \<and> expired T r')) (cache_entries s n)))"
    using al(1) by (rule distinct_map_filter)
  then have pre1: "distinct (cache_keys n s2)" by (simp add: cache_keys_def e2)
  have pre2: "distinct ks" using Cons.prems by simp
  have "k \<notin> set ks" "set ks \<subseteq> fst ` set (cache_entries s n)"
    using Cons.prems by (simp_all add: cache_keys_def)
  then have "set ks \<subseteq> fst ` set (filter (\<lambda>(k', r'). \<not> (k' = k \<and> expired T r')) (cache_entries s n))"
    by (rule filter_keeps_keys)
  moreover have e2n: "cache_entries s2 n = filter (\<lambda>(k', r'). \<not> (k' = k \<and> expired T r')) (cache_entries s n)"
    by (simp add: e2)
  ultimately have pre3: "set ks \<subseteq> set (cache_keys n s2)"
    by (simp only: cache_keys_def set_map)
  have comb: "filter (\<lambda>(k', r'). \<not> (k' \<in> set ks \<and> expired T r')) (cache_entries s2 n) =
      filter (\<lambda>(k', r'). \<not> (k' \<in> set (k # ks) \<and> expired T r')) (cache_entries s n)"
    unfolding e2n by (rule sweep_filter_combine)
  from Cons.IH [OF pre1 pre2 pre3]
  have A: "fst (age_sweep_keys h n ks s2) = Inr ()"
    and B: "caches_keys (snd (age_sweep_keys h n ks s2)) = caches_keys s2"
    and C: "\<And>n'. cache_entries (snd (age_sweep_keys h n ks s2)) n' =
         (if n' = n then filter (\<lambda>(k, r). \<not> (k \<in> set ks \<and> expired T r)) (cache_entries s2 n)
          else cache_entries s2 n')"
    by blast+
  show ?case
    unfolding step
  proof (intro conjI allI)
    show "fst (age_sweep_keys h n ks s2) = Inr ()" by (rule A)
    show "caches_keys (snd (age_sweep_keys h n ks s2)) = caches_keys s" by (simp only: B k2)
    show "cache_entries (snd (age_sweep_keys h n ks s2)) n' =
         (if n' = n then filter (\<lambda>(k', r). \<not> (k' \<in> set (k # ks) \<and> expired T r)) (cache_entries s n)
          else cache_entries s n')" for n'
    proof (cases "n' = n")
      case True
      have "cache_entries (snd (age_sweep_keys h n ks s2)) n =
          filter (\<lambda>(k, r). \<not> (k \<in> set ks \<and> expired T r)) (cache_entries s2 n)"
        by (simp only: C simp_thms if_True)
      also note comb
      finally show ?thesis by (simp only: True simp_thms if_True)
    next
      case False
      then show ?thesis by (simp add: C e2)
    qed
  qed
qed

subsection \<open>The age sweep in closed form\<close>

lemma one_entry_per_key_caches_open [simp]:
  "one_entry_per_key (caches_open n s) = one_entry_per_key s"
  by (simp add: one_entry_per_key_def cache_keys_def)

lemma filter_known_keys:
  "fst ` set al \<subseteq> S \<Longrightarrow>
   filter (\<lambda>(k, r). \<not> (k \<in> S \<and> Q r)) al = filter (\<lambda>(k, r). \<not> Q r) al"
  by (induction al) auto

lemma filter_all_keys:
  "filter (\<lambda>(k, r). \<not> (k \<in> set (map fst al) \<and> Q r)) al = filter (\<lambda>(k, r). \<not> Q r) al"
  by (rule filter_known_keys) simp

lemma age_sweep_caches_closed:
  assumes "\<forall>i. clock h i = T" and "reliable_store h"
  shows "one_entry_per_key s \<Longrightarrow>
    fst (age_sweep_caches h ns s) = Inr ()
    \<and> (\<forall>n'. cache_entries (snd (age_sweep_caches h ns s)) n' =
         (if n' \<in> set ns then filter (\<lambda>(k, r). \<not> expired T r) (cache_entries s n')
          else cache_entries s n'))"
proof (induction ns arbitrary: s)
  case Nil
  then show ?case by simp
next
  case (Cons n ns)
  define s1 where "s1 = caches_open n s"
  define s2 where "s2 = snd (age_sweep_keys h n (cache_keys n s1) s1)"
  have d1: "distinct (cache_keys n s1)"
    using Cons.prems by (simp add: s1_def one_entry_per_key_def cache_keys_def)
  from age_sweep_keys_closed [OF assms d1 d1 subset_refl]
  have A: "fst (age_sweep_keys h n (cache_keys n s1) s1) = Inr ()"
    and C: "\<And>n'. cache_entries s2 n' =
         (if n' = n then filter (\<lambda>(k, r). \<not> (k \<in> set (cache_keys n s1) \<and> expired T r)) (cache_entries s1 n)
          else cache_entries s1 n')"
    unfolding s2_def by blast+
  have e2: "cache_entries s2 n' =
         (if n' = n then filter (\<lambda>(k, r). \<not> expired T r) (cache_entries s n)
          else cache_entries s n')" for n'
  proof (cases "n' = n")
    case True
    have "cache_entries s2 n =
        filter (\<lambda>(k, r). \<not> (k \<in> set (cache_keys n s1) \<and> expired T r)) (cache_entries s1 n)"
      by (simp only: C simp_thms if_True)
    also have "cache_keys n s1 = map fst (cache_entries s n)"
      by (simp add: s1_def cache_keys_def)
    also have "cache_entries s1 n = cache_entries s n"
      by (simp add: s1_def)
    also note filter_all_keys
    finally show ?thesis by (simp only: True simp_thms if_True)
  next
    case False
    then show ?thesis by (simp add: C s1_def)
  qed
  have "distinct (map fst (cache_entries s2 n'))" for n'
    using Cons.prems unfolding e2 one_entry_per_key_def cache_keys_def
    by (simp add: distinct_map_filter)
  then have inv2: "one_entry_per_key s2"
    by (simp add: one_entry_per_key_def cache_keys_def)
  have step: "age_sweep_caches h (n # ns) s = age_sweep_caches h ns s2"
    using A by (cases "age_sweep_keys h n (cache_keys n s1) s1")
      (simp add: s1_def [symmetric] s2_def)
  from Cons.IH [OF inv2]
  have A2: "fst (age_sweep_caches h ns s2) = Inr ()"
    and C2: "\<And>n'. cache_entries (snd (age_sweep_caches h ns s2)) n' =
         (if n' \<in> set ns then filter (\<lambda>(k, r). \<not> expired T r) (cache_entries s2 n')
          else cache_entries s2 n')"
    by blast+
  show ?case
    unfolding step by (simp add: A2 C2 e2)
qed

lemma map_of_filter_distinct:
  assumes "distinct (map fst al)" and "map_of al k = Some r"
  shows "map_of (filter (\<lambda>(k, r). P r) al) k = (if P r then Some r else None)"
proof (cases "P r")
  case True
  from map_of_filter_in [of al k r "\<lambda>k r. P r", OF assms(2) True] True
  show ?thesis by simp
next
  case False
  have "k \<notin> fst ` set (filter (\<lambda>(k, r). P r) al)"
  proof
    assume "k \<in> fst ` set (filter (\<lambda>(k, r). P r) al)"
    then obtain x where x: "x \<in> set (filter (\<lambda>(k, r). P r) al)" "k = fst x" by blast
    then have 1: "(k, snd x) \<in> set al" and 2: "P (snd x)" by (simp_all add: case_prod_beta)
    have 3: "(k, r) \<in> set al" using assms(2) by (rule map_of_SomeD)
    have "snd x = r" using assms(1) 1 3 by (rule eq_key_imp_eq_value)
    with 2 False show False by simp
  qed
  then have "map_of (filter (\<lambda>(k, r). P r) al) k = None" by (rule iffD2 [OF map_of_eq_None_iff])
  with False show ?thesis by simp
qed

lemma age_sweep_result:
  assumes "\<forall>i. clock h i = T" and "reliable_store h" and "one_entry_per_key s"
  shows "fst (performPeriodicCacheInvalidation h s) = Inr ()"
    and "cache_lookup s n u = Some r \<Longrightarrow>
         cache_lookup (snd (performPeriodicCacheInvalidation h s)) n u =
           (if expired T r then None else Some r)"
proof -
  from age_sweep_caches_closed [OF assms, of "caches_keys s"]
  have A: "fst (age_sweep_caches h (caches_keys s) s) = Inr ()"
    and C: "\<And>n'. cache_entries (snd (age_sweep_caches h (caches_keys s) s)) n' =
         (if n' \<in> set (caches_keys s) then filter (\<lambda>(k, r). \<not> expired T r) (cache_entries s n')
          else cache_entries s n')"
    by blast+
  have P: "performPeriodicCacheInvalidation h s = (Inr (), snd (age_sweep_caches h (caches_keys s) s))"
    using A by (cases "age_sweep_caches h (caches_keys s) s")
      (simp add: performPeriodicCacheInvalidation_def)
  show "fst (performPeriodicCacheInvalidation h s) = Inr ()" by (simp add: P)
  assume r: "cache_lookup s n u = Some r"
  then have n: "n \<in> set (caches_keys s)"
    by (force simp: cache_lookup_def cache_entries_def caches_keys_def
        dest: map_of_SomeD split: option.splits)
  have d: "distinct (map fst (cache_entries s n))"
    using assms(3) by (simp add: one_entry_per_key_def cache_keys_def)
  show "cache_lookup (snd (performPeriodicCacheInvalidation h s)) n u =
           (if expired T r then None else Some r)"
    using map_of_filter_distinct [OF d, of u r "\<lambda>r. \<not> expired T r"] r n
    by (simp add: P cache_lookup_def C)
qed

subsection \<open>A failure leaves both loops of a sweep\<close>

lemma age_sweep_keys_append:
  "age_sweep_keys h n (ks1 @ ks2) s =
     (case age_sweep_keys h n ks1 s of
        (Inl e, s1) \<Rightarrow> (Inl e, s1)
      | (Inr u, s1) \<Rightarrow> age_sweep_keys h n ks2 s1)"
proof (induction ks1 arbitrary: s)
  case Nil
  then show ?case by simp
next
  case (Cons k ks1)
  show ?case
  proof (cases "cache_match h n k s")
    case (Inl e)
    then show ?thesis by simp
  next
    case (Inr found)
    show ?thesis
    proof (cases found)
      case None
      with Inr show ?thesis by simp
    next
      case (Some response)
      obtain old s1 where o: "older_than h (headers_get response ''X-Cache-Timestamp'') maxCacheAge s = (old, s1)"
        by (cases "older_than h (headers_get response ''X-Cache-Timestamp'') maxCacheAge s")
      show ?thesis
      proof (cases old)
        case True
        obtain d s2 where d: "cache_delete h n k s1 = (d, s2)" by (cases "cache_delete h n k s1")
        show ?thesis
          using Inr Some o True d Cons.IH [of s2] by (cases d) simp_all
      next
        case False
        then show ?thesis using Inr Some o Cons.IH [of s1] by simp
      qed
    qed
  qed
qed

lemma age_sweep_caches_append:
  "age_sweep_caches h (ns1 @ ns2) s =
     (case age_sweep_caches h ns1 s of
        (Inl e, s1) \<Rightarrow> (Inl e, s1)
      | (Inr u, s1) \<Rightarrow> age_sweep_caches h ns2 s1)"
proof (induction ns1 arbitrary: s)
  case Nil
  then show ?case by simp
next
  case (Cons n ns1)
  obtain r s2 where r: "age_sweep_keys h n (cache_keys n (caches_open n s)) (caches_open n s) = (r, s2)"
    by (cases "age_sweep_keys h n (cache_keys n (caches_open n s)) (caches_open n s)")
  show ?case using r Cons.IH [of s2] by (cases r) (simp_all add: Let_def)
qed

lemma older_than_caches: "older_than h ts limit s = (b, s') \<Longrightarrow> caches s' = caches s"
  using older_than_state(3) [of h ts limit s] by simp

lemma generateSignature_caches: "generateSignature h u s = (sig, s') \<Longrightarrow> caches s' = caches s"
  by (auto simp: generateSignature_def Date_now_def)

lemma age_sweep_one_failure:
  "age_sweep_keys h n [k] s = (Inl e, s') \<Longrightarrow> caches s' = caches s"
  by (auto simp: cache_delete_def Let_def split: sum.splits option.splits prod.splits if_splits
      dest: older_than_caches)

lemma signature_sweep_keys_append:
  "signature_sweep_keys h n (ks1 @ ks2) s =
     (case signature_sweep_keys h n ks1 s of
        (Inl e, s1) \<Rightarrow> (Inl e, s1)
      | (Inr u, s1) \<Rightarrow> signature_sweep_keys h n ks2 s1)"
proof (induction ks1 arbitrary: s)
  case Nil
  then show ?case by simp
next
  case (Cons k ks1)
  show ?case
  proof (cases "cache_match h n k s")
    case (Inl e)
    then show ?thesis by simp
  next
    case (Inr found)
    show ?thesis
    proof (cases found)
      case None
      with Inr show ?thesis by simp
    next
      case (Some response)
      obtain sig s1 where g: "generateSignature h k s = (sig, s1)"
        by (cases "generateSignature h k s")
      show ?thesis
      proof (cases "truthy (headers_get response ''X-Signature'')
                    \<and> headers_get response ''X-Signature'' \<noteq> Some sig")
        case True
        obtain d s2 where d: "cache_delete h n k s1 = (d, s2)" by (cases "cache_delete h n k s1")
        show ?thesis
          using Inr Some g True d Cons.IH [of s2] by (cases d) simp_all
      next
        case False
        then show ?thesis using Inr Some g Cons.IH [of s1] by auto
      qed
    qed
  qed
qed

lemma signature_sweep_caches_append:
  "signature_sweep_caches h (ns1 @ ns2) s =
     (case signature_sweep_caches h ns1 s of
        (Inl e, s1) \<Rightarrow> (Inl e, s1)
      | (Inr u, s1) \<Rightarrow> signature_sweep_caches h ns2 s1)"
proof (induction ns1 arbitrary: s)
  case Nil
  then show ?case by simp
next
  case (Cons n ns1)
  obtain r s2 where r: "signature_sweep_keys h n (cache_keys n (caches_open n s)) (caches_open n s) = (r, s2)"
    by (cases "signature_sweep_keys h n (cache_keys n (caches_open n s)) (caches_open n s)")
  show ?case using r Cons.IH [of s2] by (cases r) (simp_all add: Let_def)
qed

lemma signature_sweep_one_failure:
  "signature_sweep_keys h n [k] s = (Inl e, s') \<Longrightarrow> caches s' = caches s"
  by (auto simp: cache_delete_def Let_def split: sum.splits option.splits prod.splits if_splits
      dest: generateSignature_caches)

lemma age_sweep_stops:
  assumes "caches_keys s = ns1 @ n # ns2"
    and "age_sweep_caches h ns1 s = (Inr (), s1)"
    and "cache_keys n (caches_open n s1) = ks1 @ k # ks2"
    and "age_sweep_keys h n ks1 (caches_open n s1) = (Inr (), s2)"
    and "age_sweep_keys h n [k] s2 = (Inl e, s3)"
  shows "performPeriodicCacheInvalidation h s =
           (Inr (), console_warn ''Periodic cache invalidation failed:'' s3)"
proof -
  have "age_sweep_keys h n (k # ks2) s2 = (Inl e, s3)"
    using age_sweep_keys_append [of h n "[k]" ks2 s2] assms(5) by simp
  then have "age_sweep_keys h n (ks1 @ k # ks2) (caches_open n s1) = (Inl e, s3)"
    using age_sweep_keys_append [of h n ks1 "k # ks2" "caches_open n s1"] assms(4) by simp
  then have "age_sweep_caches h (n # ns2) s1 = (Inl e, s3)"
    using assms(3) by (simp add: Let_def)
  then have "age_sweep_caches h (ns1 @ n # ns2) s = (Inl e, s3)"
    using age_sweep_caches_append [of h ns1 "n # ns2" s] assms(2) by simp
  then show ?thesis
    using assms(1) by (simp add: performPeriodicCacheInvalidation_def)
qed

lemma signature_sweep_stops:
  assumes "caches_keys s = ns1 @ n # ns2"
    and "signature_sweep_caches h ns1 s = (Inr (), s1)"
    and "cache_keys n (caches_open n s1) = ks1 @ k # ks2"
    and "signature_sweep_keys h n ks1 (caches_open n s1) = (Inr (), s2)"
    and "signature_sweep_keys h n [k] s2 = (Inl e, s3)"
  shows "performPeriodicSignatureInvalidation h s =
           (Inr (), console_warn ''Periodic signature invalidation failed:'' s3)"
proof -
  have "signature_sweep_keys h n (k # ks2) s2 = (Inl e, s3)"
    using signature_sweep_keys_append [of h n "[k]" ks2 s2] assms(5) by simp
  then have "signature_sweep_keys h n (ks1 @ k # ks2) (caches_open n s1) = (Inl e, s3)"
    using signature_sweep_keys_append [of h n ks1 "k # ks2" "caches_open n s1"] assms(4) by simp
  then have "signature_sweep_caches h (n # ns2) s1 = (Inl e, s3)"
    using assms(3) by (simp add: Let_def)
  then have "signature_sweep_caches h (ns1 @ n # ns2) s = (Inl e, s3)"
    using signature_sweep_caches_append [of h ns1 "n # ns2" s] assms(2) by simp
  then show ?thesis
    using assms(1) by (simp add: performPeriodicSignatureInvalidation_def)
qed

lemma sweeps_never_reject:
  "fst (performPeriodicCacheInvalidation h s) = Inr ()"
  "fst (performPeriodicSignatureInvalidation h s) = Inr ()"
  by (auto simp: performPeriodicCacheInvalidation_def performPeriodicSignatureInvalidation_def
      split: prod.splits sum.splits)

subsection \<open>Setting a header on a response of the host\<close>

text \<open>
  Every \<^verbatim>\<open>headers.set\<close> of the worker is called on the clone of a response that
  \<^verbatim>\<open>fetch\<close> or \<^verbatim>\<open>cache.match\<close> has handed out, and throws. So
  \<^verbatim>\<open>updateCacheSignatures\<close> changes no entry, on any store and for any map; and the
  \<^verbatim>\<open>try\<close> block of the asset policy ends in the \<^verbatim>\<open>catch\<close> block whenever the
  fetch has settled with an \<^verbatim>\<open>ok\<close> response.
\<close>

lemma resign_and_put_immutable:
  "headers_guard r = Immutable \<Longrightarrow>
   \<exists>e. fst (resign_and_put h signatures n k r s) = Inl e"
  "headers_guard r = Immutable \<Longrightarrow>
   cache_lookup (snd (resign_and_put h signatures n k r s)) = cache_lookup s"
  by (auto simp: resign_and_put_def headers_set_def generateSignature_def Date_now_def
        Let_def split_def split: option.splits)

lemma update_signatures_keys_store:
  "cache_lookup (snd (update_signatures_keys h signatures n ks s)) = cache_lookup s"
proof (induction ks arbitrary: s)
  case Nil
  then show ?case by simp
next
  case (Cons k ks)
  show ?case
  proof (cases "cache_match h n k s")
    case (Inl e)
    then show ?thesis by simp
  next
    case (Inr found)
    show ?thesis
    proof (cases found)
      case None
      with Inr Cons.IH show ?thesis by simp
    next
      case (Some r)
      with Inr have g: "headers_guard r = Immutable"
        by (auto simp: cache_match_def split: if_splits)
      obtain x s1 where p: "resign_and_put h signatures n k r s = (x, s1)"
        by (cases "resign_and_put h signatures n k r s")
      with resign_and_put_immutable [OF g, of h signatures n k s]
      obtain e where "x = Inl e" and "cache_lookup s1 = cache_lookup s" by auto
      with Inr Some p show ?thesis by simp
    qed
  qed
qed

lemma update_signatures_caches_store:
  "cache_lookup (snd (update_signatures_caches h signatures ns s)) = cache_lookup s"
proof (induction ns arbitrary: s)
  case Nil
  then show ?case by simp
next
  case (Cons n ns)
  obtain x s2 where k: "update_signatures_keys h signatures n
      (cache_keys n (caches_open n s)) (caches_open n s) = (x, s2)"
    by (cases "update_signatures_keys h signatures n (cache_keys n (caches_open n s))
          (caches_open n s)")
  with update_signatures_keys_store [of h signatures n "cache_keys n (caches_open n s)"
      "caches_open n s"]
  have "cache_lookup s2 = cache_lookup s" by (simp add: fun_eq_iff)
  with k Cons.IH [of s2] show ?case by (cases x) (simp_all add: Let_def)
qed

lemma updateCacheSignatures_store:
  "cache_lookup (snd (updateCacheSignatures h signatures s)) = cache_lookup s"
  by (simp add: updateCacheSignatures_def update_signatures_caches_store)

lemma sign_stamp_and_put_immutable:
  "headers_guard r = Immutable \<Longrightarrow> \<exists>e. fst (sign_stamp_and_put h n req r s) = Inl e"
  "headers_guard r = Immutable \<Longrightarrow>
   cache_lookup (snd (sign_stamp_and_put h n req r s)) = cache_lookup s"
  by (auto simp: sign_stamp_and_put_def headers_set_def generateSignature_def Date_now_def
        Let_def split_def)

lemma await_fetch_immutable:
  "await_fetch h i c = Responded r \<Longrightarrow> headers_guard r = Immutable"
  by (auto simp: await_fetch_def split: fetch_result.splits)

lemma asset_network_result:
  "fst (asset_network h req (Some cachedResponse) s) =
     (case await_fetch h (length (fetches s))
             (busting_fetch req [(''X-Signature'',
                req_url req @ ''_'' @ toString (clock h (ticks s) div (5 * 60 * 1000)))]) of
        Rejected e \<Rightarrow> Inr cachedResponse
      | Responded networkResponse \<Rightarrow>
          if ok networkResponse then Inr cachedResponse else Inr networkResponse)"
proof -
  let ?c = "busting_fetch req [(''X-Signature'',
                req_url req @ ''_'' @ toString (clock h (ticks s) div (5 * 60 * 1000)))]"
  let ?s2 = "s\<lparr>ticks := Suc (ticks s), fetches := fetches s @ [?c]\<rparr>"
  show ?thesis
  proof (cases "await_fetch h (length (fetches s)) ?c")
    case (Rejected e)
    then show ?thesis
      by (simp add: asset_network_def asset_try_def fetch_def generateSignature_def Date_now_def)
  next
    case (Responded r)
    then have g: "headers_guard r = Immutable" by (rule await_fetch_immutable)
    obtain x s3 where p: "sign_stamp_and_put h STATIC_CACHE_NAME req r ?s2 = (x, s3)"
      by (cases "sign_stamp_and_put h STATIC_CACHE_NAME req r ?s2")
    with sign_stamp_and_put_immutable(1) [OF g, of h STATIC_CACHE_NAME req ?s2]
    obtain e where "x = Inl e" by auto
    with Responded p show ?thesis
      by (simp add: asset_network_def asset_try_def fetch_def generateSignature_def Date_now_def)
  qed
qed

subsection \<open>Numbers printed by the worker read back\<close>

text \<open>
  \<^verbatim>\<open>parseInt(n.toString())\<close> is \<open>n\<close>: a timestamp in the format of
  \<^verbatim>\<open>Date.now().toString()\<close> is read back as the number it was, so for an entry that
  carries the timestamp \<open>t\<close> the test of the age sweep is \<open>T - t > maxCacheAge\<close>.
\<close>

lemma digit_value_digit_char: "d < 10 \<Longrightarrow> digit_value 10 (digit_char d) = Some d"
proof -
  assume "d < 10"
  then have "d = 0 \<or> d = 1 \<or> d = 2 \<or> d = 3 \<or> d = 4 \<or> d = 5 \<or> d = 6 \<or> d = 7 \<or> d = 8 \<or> d = 9"
    by presburger
  then show ?thesis
    by (elim disjE) (simp_all add: digit_value_def digit_char_def)
qed

lemma parse_digits_append:
  "list_all (\<lambda>c. digit_value radix c \<noteq> None) xs \<Longrightarrow>
   parse_digits radix (xs @ ys) acc = parse_digits radix ys (parse_digits radix xs acc)"
  by (induction xs arbitrary: acc) auto

lemma digits_valid: "list_all (\<lambda>c. digit_value 10 c \<noteq> None) (digits n)"
proof (induction n rule: digits.induct)
  case (1 n)
  show ?case
  proof (cases "n < 10")
    case True
    then show ?thesis by (simp add: digits.simps [of n] digit_value_digit_char)
  next
    case False
    then have "n mod 10 < 10" by simp
    with False 1 show ?thesis by (simp add: digits.simps [of n] digit_value_digit_char)
  qed
qed

lemma parse_digits_digits: "parse_digits 10 (digits n) None = Some n"
proof (induction n rule: digits.induct)
  case (1 n)
  show ?case
  proof (cases "n < 10")
    case True
    then show ?thesis by (simp add: digits.simps [of n] digit_value_digit_char)
  next
    case False
    have m: "n mod 10 < 10" by simp
    have dn: "digits n = digits (n div 10) @ [digit_char (n mod 10)]"
      using False by (subst digits.simps) simp
    have "parse_digits 10 (digits n) None =
        parse_digits 10 [digit_char (n mod 10)] (parse_digits 10 (digits (n div 10)) None)"
      unfolding dn by (rule parse_digits_append) (rule digits_valid)
    also have "\<dots> = parse_digits 10 [digit_char (n mod 10)] (Some (n div 10))"
      using False 1 by simp
    also have "\<dots> = Some (n div 10 * 10 + n mod 10)"
      by (simp add: digit_value_digit_char [OF m])
    finally show ?thesis by simp
  qed
qed

lemma digits_not_empty: "digits n \<noteq> []"
  by (subst digits.simps) simp

lemma digits_no_sign_or_space:
  "c \<in> set (digits n) \<Longrightarrow> \<not> is_white_space c \<and> c \<noteq> CHR ''-'' \<and> c \<noteq> CHR ''+'' \<and> c \<noteq> CHR ''x'' \<and> c \<noteq> CHR ''X''"
proof -
  assume "c \<in> set (digits n)"
  with digits_valid [of n] have "digit_value 10 c \<noteq> None" by (simp add: list_all_iff)
  then show ?thesis
    by (auto simp: digit_value_def is_white_space_def Let_def split: if_splits)
qed

lemma digits_not_hex: "\<not> starts_with (digits n) ''0x''" "\<not> starts_with (digits n) ''0X''"
proof -
  have "\<not> starts_with ds [a, b]" if "b \<notin> set ds" for ds :: string and a b
    using that by (cases ds; cases "tl ds") auto
  moreover have "CHR ''x'' \<notin> set (digits n)" "CHR ''X'' \<notin> set (digits n)"
    using digits_no_sign_or_space [of _ n] by auto
  ultimately show "\<not> starts_with (digits n) ''0x''" "\<not> starts_with (digits n) ''0X''" by auto
qed

lemma parseInt_digits: "parseInt (digits n) = Some (int n)"
proof -
  obtain c cs where d: "digits n = c # cs" using digits_not_empty [of n] by (cases "digits n") auto
  then have c: "\<not> is_white_space c" "c \<noteq> CHR ''-''" "c \<noteq> CHR ''+''"
    using digits_no_sign_or_space [of c n] by auto
  have 1: "dropWhile is_white_space (digits n) = digits n" using d c by simp
  have 2: "hd (digits n) \<noteq> CHR ''-''" "hd (digits n) \<noteq> CHR ''+''" using d c by simp_all
  show ?thesis
    unfolding parseInt_def Let_def 1
    by (simp add: 2 digits_not_hex parse_digits_digits del: starts_with.simps parse_digits.simps)
qed

lemma parseInt_toString: "parseInt (toString i) = Some i"
proof (cases "i < 0")
  case False
  then show ?thesis by (simp add: toString_def parseInt_digits)
next
  case True
  have 1: "dropWhile is_white_space (CHR ''-'' # digits (nat (- i))) = CHR ''-'' # digits (nat (- i))"
    by (simp add: is_white_space_def)
  have "parseInt (CHR ''-'' # digits (nat (- i))) = Some (- int (nat (- i)))"
    unfolding parseInt_def Let_def 1
    by (simp add: digits_not_hex parse_digits_digits del: starts_with.simps parse_digits.simps)
  with True show ?thesis by (simp add: toString_def)
qed

subsection \<open>Evaluation on the concrete instances\<close>

lemmas eval_simps =
  state_of_def offline_host_def server_error_host_def server_error_def frozen_clock_def
  online_host_def new_app_js_def
  app_js_def page_v2_def api_data_def signed_entry_def unsigned_entry_def old_entry_def
  fresh_entry_def
  STATIC_CACHE_NAME_def DYNAMIC_CACHE_NAME_def API_CACHE_NAME_def CACHE_VERSION_def
  maxCacheAge_def staleWhileRevalidateTime_def
  cache_match_def cache_lookup_def cache_entries_def cache_keys_def caches_keys_def
  caches_open_def cache_put_def cache_put_unawaited_def cache_delete_def
  headers_get_def headers_set_def from_host_def await_fetch_def
  is_http_white_space_def normalize_value_def is_header_value_def
  toString_def digits.simps digit_char_def parseInt_def is_white_space_def digit_value_def
  truthy_def Date_now_def generateSignature_def fetch_def fetch_detached_def console_warn_def
  busting_fetch_def plain_fetch_def no_cache_headers_def older_than_def
  Let_def split_def

lemmas flaky_simps = flaky_host_def outdated_entry_def two_outdated_def
  performPeriodicCacheInvalidation_def performPeriodicSignatureInvalidation_def

lemmas handler_simps =
  handleApiRequestWithCacheBusting_def api_try_def api_catch_def
  handleAssetRequestWithSignatureInvalidation_def asset_network_def asset_try_def
  shouldInvalidateCache_def stamp_and_put_def stamp_bypass_and_put_def sign_stamp_and_put_def
  refreshCacheInBackground_start_def

section \<open>The claims\<close>

subsection \<open>C1: classification by the request router\<close>

text \<open>
  Claim C1 as the specification states it: rule 1 looks at the path, rule 2 asks whether
  the path ends in \<^verbatim>\<open>.js\<close> or \<^verbatim>\<open>.css\<close>, rule 3 looks for \<^verbatim>\<open>v=\<close>, \<^verbatim>\<open>cb=\<close> or
  \<^verbatim>\<open>h=\<close> in the query string. The source tests \<^verbatim>\<open>request.url.includes(...)\<close> on the
  whole URL, and each of the three rules differs. \<^verbatim>\<open>https://example.com/data.json\<close>
  contains \<^verbatim>\<open>.js\<close>: the source selects the cache-first policy, the rules of the
  specification the default policy. \<^verbatim>\<open>https://example.com/page?next=/api/\<close> contains
  \<^verbatim>\<open>/api/\<close> outside its path: the source selects the network-first policy, the
  specification the default policy. \<^verbatim>\<open>https://example.com/page?a=1&v=2\<close> has
  \<^verbatim>\<open>v=\<close> in its query string but not \<^verbatim>\<open>?v=\<close>: the source selects the default
  policy, the specification the versioned one.
\<close>

theorem router_differs_from_spec_rules:
  "select_policy ''https://example.com''
      \<lparr>req_method = ''GET'', req_url = ''https://example.com/data.json''\<rparr>
    \<noteq> Some (spec_classify ''https://example.com/data.json'')
   \<and> select_policy ''https://example.com''
      \<lparr>req_method = ''GET'', req_url = ''https://example.com/page?next=/api/''\<rparr>
    \<noteq> Some (spec_classify ''https://example.com/page?next=/api/'')
   \<and> select_policy ''https://example.com''
      \<lparr>req_method = ''GET'', req_url = ''https://example.com/page?a=1&v=2''\<rparr>
    \<noteq> Some (spec_classify ''https://example.com/page?a=1&v=2'')"
  by (simp add: select_policy_def classify_def spec_classify_def url_origin_def url_path_def
        url_query_def url_after_origin_def ends_with_def is_delim_def)

text \<open>
  Claim C1, amended: for every same-origin GET request the router selects exactly one of the
  four policies, a function of the URL alone, by the first rule that matches: (1) the URL
  string contains \<^verbatim>\<open>/api/\<close>; (2) it contains \<^verbatim>\<open>/assets/\<close>, \<^verbatim>\<open>.js\<close> or
  \<^verbatim>\<open>.css\<close> anywhere; (3) it contains \<^verbatim>\<open>?v=\<close>, \<^verbatim>\<open>?cb=\<close> or \<^verbatim>\<open>?h=\<close>;
  (4) otherwise the default policy. The listener responds with the handler of that policy.
\<close>

theorem router_first_match_on_whole_url:
  assumes "req_method req = ''GET''" and "url_origin (req_url req) = location_origin"
  shows "(\<exists>!p. select_policy location_origin req = Some p)
     \<and> select_policy location_origin req = Some
         (if (\<exists>a b. req_url req = a @ ''/api/'' @ b) then NetworkFirstWithCacheBust
          else if (\<exists>a b. req_url req = a @ ''/assets/'' @ b) \<or> (\<exists>a b. req_url req = a @ ''.js'' @ b)
                  \<or> (\<exists>a b. req_url req = a @ ''.css'' @ b)
            then CacheFirstWithSignatureRevalidation
          else if (\<exists>a b. req_url req = a @ ''?v='' @ b) \<or> (\<exists>a b. req_url req = a @ ''?cb='' @ b)
                  \<or> (\<exists>a b. req_url req = a @ ''?h='' @ b)
            then StaleWhileRevalidateWithConditionalBypass
          else DefaultStaleWhileRevalidate)
     \<and> fetch_listener h location_origin req s =
         Some (run_policy (classify (req_url req)) h req s)"
  using assms
  by (simp add: select_policy_def fetch_listener_def classify_def str_includes_iff)

theorem router_first_match_on_whole_url_witness:
  "req_method app_js = ''GET''
   \<and> url_origin (req_url app_js) = ''https://example.com''
   \<and> select_policy ''https://example.com'' app_js = Some CacheFirstWithSignatureRevalidation
   \<and> fetch_listener offline_host ''https://example.com'' app_js (state_of []) =
       Some (handleAssetRequestWithSignatureInvalidation offline_host app_js (state_of []))"
  using router_first_match_on_whole_url [of app_js "''https://example.com''" offline_host "state_of []",
      unfolded str_includes_iff [symmetric]]
  by (simp add: app_js_def url_origin_def is_delim_def classify_def run_policy_def)

subsection \<open>C2: the cache-first short circuit\<close>

text \<open>
  Claim C2: in the asset policy, when \<^verbatim>\<open>cache.match\<close> finds an entry in the static
  partition whose \<^verbatim>\<open>X-Signature\<close> equals the signature computed for the URL at the
  clock reading of the request, the handler resolves to that entry, and no fetch is issued,
  neither awaited nor detached.
\<close>

theorem asset_signature_match_short_circuit:
  assumes "cache_match h STATIC_CACHE_NAME (req_url req) s = Inr (Some cachedResponse)"
    and "headers_get cachedResponse ''X-Signature'' =
           Some (req_url req @ ''_'' @ toString (clock h (ticks s) div (5 * 60 * 1000)))"
  shows "fst (handleAssetRequestWithSignatureInvalidation h req s) = Inr cachedResponse
     \<and> fetches (snd (handleAssetRequestWithSignatureInvalidation h req s)) = fetches s
     \<and> pending (snd (handleAssetRequestWithSignatureInvalidation h req s)) = pending s"
  using assms
  by (simp add: handleAssetRequestWithSignatureInvalidation_def shouldInvalidateCache_def
        generateSignature_def Date_now_def Let_def split_def)

theorem asset_signature_match_short_circuit_witness:
  "cache_match offline_host STATIC_CACHE_NAME (req_url app_js)
      (state_of [(STATIC_CACHE_NAME, [(req_url app_js, signed_entry)])]) = Inr (Some signed_entry)
   \<and> headers_get signed_entry ''X-Signature'' =
       Some (req_url app_js @ ''_'' @ toString (clock offline_host 0 div (5 * 60 * 1000)))
   \<and> fst (handleAssetRequestWithSignatureInvalidation offline_host app_js
        (state_of [(STATIC_CACHE_NAME, [(req_url app_js, signed_entry)])])) = Inr signed_entry
   \<and> fetches (snd (handleAssetRequestWithSignatureInvalidation offline_host app_js
        (state_of [(STATIC_CACHE_NAME, [(req_url app_js, signed_entry)])]))) = []"
  using asset_signature_match_short_circuit [of offline_host app_js "state_of [(STATIC_CACHE_NAME, [(req_url app_js, signed_entry)])]"
      signed_entry]
  by (simp add: eval_simps)

subsection \<open>C3: the versioned policy serves the cache first\<close>

text \<open>
  Claim C3: in the versioned-request policy, when \<^verbatim>\<open>cache.match\<close> finds an entry in
  the dynamic partition, the handler resolves to exactly that entry, whatever the network
  does. It leaves one pending task, the background refresh with conditional bypass, and
  that task, resumed in any state under any host, never rejects: its failures reach nobody.
\<close>

theorem versioned_serves_cache_first:
  assumes "cache_match h DYNAMIC_CACHE_NAME (req_url req) s = Inr (Some cachedResponse)"
  shows "fst (handleVersionedRequestWithConditionalBypass h req s) = Inr cachedResponse
     \<and> (\<exists>t. pending (snd (handleVersionedRequestWithConditionalBypass h req s)) = pending s @ [t]
            \<and> t_kind t = UpdateCacheInBackgroundWithConditionalBypass
            \<and> t_request t = req
            \<and> (\<forall>h' s'. fst (resume_task h' t s') = Inr ()))"
  using assms
  by (simp add: handleVersionedRequestWithConditionalBypass_def resume_task_fulfils
        updateCacheInBackgroundWithConditionalBypass_start_def fetch_detached_def Date_now_def
        Let_def split_def)

theorem versioned_serves_cache_first_witness:
  "cache_match offline_host DYNAMIC_CACHE_NAME (req_url page_v2)
      (state_of [(DYNAMIC_CACHE_NAME, [(req_url page_v2, fresh_entry)])]) = Inr (Some fresh_entry)
   \<and> fst (handleVersionedRequestWithConditionalBypass offline_host page_v2
        (state_of [(DYNAMIC_CACHE_NAME, [(req_url page_v2, fresh_entry)])])) = Inr fresh_entry
   \<and> length (pending (snd (handleVersionedRequestWithConditionalBypass offline_host page_v2
        (state_of [(DYNAMIC_CACHE_NAME, [(req_url page_v2, fresh_entry)])])))) = 1"
  using versioned_serves_cache_first [of offline_host page_v2 "state_of [(DYNAMIC_CACHE_NAME, [(req_url page_v2, fresh_entry)])]"
      fresh_entry]
  by (auto simp add: eval_simps)

subsection \<open>C4: the age sweep\<close>

text \<open>
  Claim C4: let the age sweep run with the clock at \<open>T\<close>, on a store that rejects no
  operation and holds one entry per key. The sweep completes, and for every entry: when
  it carries an \<^verbatim>\<open>X-Cache-Timestamp\<close> that reads as the number \<open>ts\<close>, it remains
  if and only if \<open>T - ts \<le> maxCacheAge\<close>, and is gone otherwise; when it carries no
  such header, it remains untouched.
\<close>

theorem age_sweep_keeps_exactly_the_young:
  assumes "\<forall>i. clock h i = T" and "reliable_store h" and "one_entry_per_key s"
    and "cache_lookup s n u = Some r"
  shows "fst (performPeriodicCacheInvalidation h s) = Inr ()
     \<and> (\<forall>v ts. headers_get r ''X-Cache-Timestamp'' = Some v \<and> parseInt v = Some ts \<longrightarrow>
          (cache_lookup (snd (performPeriodicCacheInvalidation h s)) n u = Some r
             \<longleftrightarrow> T - ts \<le> maxCacheAge)
        \<and> (cache_lookup (snd (performPeriodicCacheInvalidation h s)) n u = None
             \<longleftrightarrow> \<not> T - ts \<le> maxCacheAge))
     \<and> (headers_get r ''X-Cache-Timestamp'' = None \<longrightarrow>
          cache_lookup (snd (performPeriodicCacheInvalidation h s)) n u = Some r)"
proof -
  have empty: "parseInt [] = None" by (simp add: parseInt_def)
  have look: "cache_lookup (snd (performPeriodicCacheInvalidation h s)) n u =
           (if expired T r then None else Some r)"
    using assms by (rule age_sweep_result(2))
  have "fst (performPeriodicCacheInvalidation h s) = Inr ()"
    using assms(1-3) by (rule age_sweep_result(1))
  moreover have "expired T r \<longleftrightarrow> \<not> T - ts \<le> maxCacheAge"
    if "headers_get r ''X-Cache-Timestamp'' = Some v" "parseInt v = Some ts" for v ts
    using that empty by (auto simp: expired_def)
  moreover have "\<not> expired T r" if "headers_get r ''X-Cache-Timestamp'' = None"
    using that by (simp add: expired_def)
  ultimately show ?thesis by (simp add: look)
qed

theorem age_sweep_keeps_exactly_the_young_witness:
  "reliable_store offline_host \<and> one_entry_per_key three_entries
   \<and> cache_lookup three_entries STATIC_CACHE_NAME ''https://example.com/a'' = Some old_entry
   \<and> headers_get old_entry ''X-Cache-Timestamp'' = Some ''1699900000000''
   \<and> parseInt ''1699900000000'' = Some 1699900000000
   \<and> cache_lookup (snd (performPeriodicCacheInvalidation offline_host three_entries))
        STATIC_CACHE_NAME ''https://example.com/a'' = None"
  using age_sweep_keeps_exactly_the_young [of offline_host 1700000000000 three_entries STATIC_CACHE_NAME
      "''https://example.com/a''" old_entry]
  by (simp add: three_entries_def reliable_store_def one_entry_per_key_def eval_simps)

subsection \<open>C5: the API policy and network failure\<close>

text \<open>
  Claim C5 as the specification states it counts a response that is not \<^verbatim>\<open>ok\<close> as a
  network failure that falls back to the \<open>api\<close> partition. In the source only the
  \<^verbatim>\<open>catch\<close> block reads the cache, and a response that is not \<^verbatim>\<open>ok\<close> throws
  nothing: with an entry cached for the URL and a server that answers with an error
  response, the handler resolves to the error response, not to the cached entry.
\<close>

theorem api_non_ok_response_bypasses_cache:
  "\<not> ok server_error
   \<and> cache_match server_error_host API_CACHE_NAME (req_url api_data)
        (state_of [(API_CACHE_NAME, [(req_url api_data, fresh_entry)])]) = Inr (Some fresh_entry)
   \<and> fst (handleApiRequestWithCacheBusting server_error_host api_data
        (state_of [(API_CACHE_NAME, [(req_url api_data, fresh_entry)])])) = Inr server_error
   \<and> fst (handleApiRequestWithCacheBusting server_error_host api_data
        (state_of [(API_CACHE_NAME, [(req_url api_data, fresh_entry)])])) \<noteq> Inr fresh_entry"
  by (simp add: handler_simps eval_simps)

text \<open>
  Claim C5, amended: the API policy always fetches first. When the fetch rejects, it
  falls back to the \<open>api\<close> partition: a cached entry is returned, and a detached
  background refresh is left pending exactly when the entry carries a timestamp whose age
  at that clock reading exceeds \<open>maxCacheAge\<close>; with no cached entry the rejection of
  the fetch is propagated (and a rejected cache read is propagated as such). When the
  fetch settles with a response that is not \<^verbatim>\<open>ok\<close>, the handler resolves to that
  response, issues no other fetch and schedules nothing. In both cases every entry of
  every partition is what it was: the response that is not \<^verbatim>\<open>ok\<close> is not stored.
\<close>

theorem api_falls_back_when_fetch_rejects:
  "(let res = handleApiRequestWithCacheBusting h req s;
        c = busting_fetch req [(''X-Cache-Bust'', toString (clock h (ticks s)))]
    in (\<exists>rest. fetches (snd res) = fetches s @ c # rest)
     \<and> (case await_fetch h (length (fetches s)) c of
          Responded networkResponse \<Rightarrow>
            \<not> ok networkResponse \<longrightarrow>
              fst res = Inr networkResponse
            \<and> fetches (snd res) = fetches s @ [c]
            \<and> pending (snd res) = pending s
            \<and> cache_lookup (snd res) = cache_lookup s
        | Rejected e \<Rightarrow>
            cache_lookup (snd res) = cache_lookup s
          \<and> (case cache_match h API_CACHE_NAME (req_url req) s of
               Inl e' \<Rightarrow> fst res = Inl e'
             | Inr None \<Rightarrow> fst res = Inl e
             | Inr (Some cachedResponse) \<Rightarrow>
                 fst res = Inr cachedResponse
               \<and> ((\<exists>t. pending (snd res) = pending s @ [t]
                        \<and> t_kind t = RefreshCacheInBackground \<and> t_request t = req
                        \<and> t_cache t = API_CACHE_NAME)
                    \<longleftrightarrow> expired (clock h (Suc (ticks s))) cachedResponse)
               \<and> (pending (snd res) = pending s
                    \<longleftrightarrow> \<not> expired (clock h (Suc (ticks s))) cachedResponse))))"
proof -
  define c where "c = busting_fetch req [(''X-Cache-Bust'', toString (clock h (ticks s)))]"
  define s2 where "s2 = (caches_open API_CACHE_NAME s)
     \<lparr>ticks := Suc (ticks s), fetches := fetches s @ [c]\<rparr>"
  have s2: "fetches s2 = fetches s @ [c]" "pending s2 = pending s" "ticks s2 = Suc (ticks s)"
    "cache_lookup s2 = cache_lookup s"
    "cache_match h API_CACHE_NAME (req_url req) s2 = cache_match h API_CACHE_NAME (req_url req) s"
    by (simp_all add: s2_def fun_eq_iff)
  have catch_fetches: "\<exists>rest. fetches (snd (api_catch h req e s2)) = fetches s @ c # rest" for e
    by (auto simp: api_catch_def refreshCacheInBackground_start_def fetch_detached_def
          older_than_snd s2 Let_def split_def split: sum.splits option.splits)
  show ?thesis
  proof (cases "await_fetch h (length (fetches s)) c")
    case (Rejected e)
    then have tr: "api_try h req (caches_open API_CACHE_NAME s) = (Inl e, s2)"
      by (simp add: api_try_def fetch_def Date_now_def c_def s2_def)
    have res: "handleApiRequestWithCacheBusting h req s = api_catch h req e s2"
      by (simp add: handleApiRequestWithCacheBusting_def tr)
    have "(case cache_match h API_CACHE_NAME (req_url req) s of
               Inl e' \<Rightarrow> fst (api_catch h req e s2) = Inl e'
             | Inr None \<Rightarrow> fst (api_catch h req e s2) = Inl e
             | Inr (Some cachedResponse) \<Rightarrow>
                 fst (api_catch h req e s2) = Inr cachedResponse
               \<and> ((\<exists>t. pending (snd (api_catch h req e s2)) = pending s @ [t]
                        \<and> t_kind t = RefreshCacheInBackground \<and> t_request t = req
                        \<and> t_cache t = API_CACHE_NAME)
                    \<longleftrightarrow> expired (clock h (Suc (ticks s))) cachedResponse)
               \<and> (pending (snd (api_catch h req e s2)) = pending s
                    \<longleftrightarrow> \<not> expired (clock h (Suc (ticks s))) cachedResponse))"
      by (auto simp: api_catch_def s2 older_than_expired older_than_snd truthy_def
            refreshCacheInBackground_start_def fetch_detached_def Let_def split_def
            split: sum.splits option.splits)
    with Rejected catch_fetches [of e] show ?thesis
      unfolding Let_def c_def [symmetric] res by (simp add: api_catch_lookup s2)
  next
    case (Responded networkResponse)
    show ?thesis
    proof (cases "ok networkResponse")
      case False
      with Responded have tr: "api_try h req (caches_open API_CACHE_NAME s) = (Inr networkResponse, s2)"
        by (simp add: api_try_def fetch_def Date_now_def c_def s2_def)
      have res: "handleApiRequestWithCacheBusting h req s = (Inr networkResponse, s2)"
        by (simp add: handleApiRequestWithCacheBusting_def tr)
      from Responded False show ?thesis
        unfolding Let_def c_def [symmetric] res by (simp add: s2)
    next
      case True
      obtain x s3 where sp: "stamp_and_put h API_CACHE_NAME req networkResponse s2 = (x, s3)"
        by (cases "stamp_and_put h API_CACHE_NAME req networkResponse s2")
      have f3: "\<exists>rest. fetches s3 = fetches s @ c # rest"
        using sp
        by (auto simp: stamp_and_put_def Date_now_def cache_put_unawaited_def cache_put_def
              s2 Let_def split_def split: sum.splits if_splits)
      have tr: "api_try h req (caches_open API_CACHE_NAME s) =
          (case x of Inl e \<Rightarrow> (Inl e, s3) | Inr u \<Rightarrow> (Inr networkResponse, s3))"
        using Responded True sp
        by (simp add: api_try_def fetch_def Date_now_def c_def [symmetric] s2_def [symmetric]
              split: sum.splits)
      have "\<exists>rest. fetches (snd (handleApiRequestWithCacheBusting h req s)) = fetches s @ c # rest"
      proof (cases x)
        case (Inl e)
        from f3 obtain rest where r: "fetches s3 = fetches s @ c # rest" by blast
        have "\<exists>rest'. fetches (snd (api_catch h req e s3)) = fetches s3 @ rest'"
          by (auto simp: api_catch_def refreshCacheInBackground_start_def fetch_detached_def
                older_than_snd Let_def split_def split: sum.splits option.splits)
        then obtain rest' where "fetches (snd (api_catch h req e s3)) = fetches s3 @ rest'"
          by blast
        with r have "fetches (snd (api_catch h req e s3)) = fetches s @ c # (rest @ rest')"
          by simp
        with Inl show ?thesis
          by (simp only: handleApiRequestWithCacheBusting_def tr sum.case prod.case) blast
      next
        case (Inr u)
        with f3 show ?thesis by (simp add: handleApiRequestWithCacheBusting_def tr)
      qed
      with Responded True show ?thesis
        unfolding Let_def c_def [symmetric] by simp
    qed
  qed
qed

theorem api_falls_back_when_fetch_rejects_witness:
  "cache_match offline_host API_CACHE_NAME (req_url api_data)
      (state_of [(API_CACHE_NAME, [(req_url api_data, old_entry)])]) = Inr (Some old_entry)
   \<and> expired (clock offline_host 1) old_entry
   \<and> fst (handleApiRequestWithCacheBusting offline_host api_data
        (state_of [(API_CACHE_NAME, [(req_url api_data, old_entry)])])) = Inr old_entry
   \<and> pending (snd (handleApiRequestWithCacheBusting offline_host api_data
        (state_of [(API_CACHE_NAME, [(req_url api_data, old_entry)])]))) \<noteq> []
   \<and> \<not> ok server_error
   \<and> fst (handleApiRequestWithCacheBusting server_error_host api_data
        (state_of [(API_CACHE_NAME, [(req_url api_data, old_entry)])])) = Inr server_error
   \<and> cache_lookup (snd (handleApiRequestWithCacheBusting server_error_host api_data
        (state_of [(API_CACHE_NAME, [(req_url api_data, old_entry)])])))
        API_CACHE_NAME (req_url api_data) = Some old_entry"
  using api_falls_back_when_fetch_rejects [of offline_host api_data "state_of [(API_CACHE_NAME, [(req_url api_data, old_entry)])]"]
    api_falls_back_when_fetch_rejects [of server_error_host api_data "state_of [(API_CACHE_NAME, [(req_url api_data, old_entry)])]"]
  by (auto simp add: eval_simps expired_def)

subsection \<open>C6: a failure inside a sweep\<close>

text \<open>
  Claim C6 as the specification states it: after a failure on one entry the sweep still
  processes the remaining entries. In the source one \<^verbatim>\<open>try\<close> block encloses both
  loops. Take a partition with the entries \<open>a\<close> and \<open>b\<close>, both too old and both with
  an outdated signature. With a reliable store either sweep deletes \<open>b\<close>. When the read
  of \<open>a\<close> is rejected, either sweep ends there and \<open>b\<close> stays.
\<close>

theorem sweep_abandons_entries_after_a_failure:
  "cache_lookup (snd (performPeriodicCacheInvalidation offline_host two_outdated))
      STATIC_CACHE_NAME ''https://example.com/b'' = None
   \<and> cache_lookup (snd (performPeriodicCacheInvalidation flaky_host two_outdated))
      STATIC_CACHE_NAME ''https://example.com/b'' = Some outdated_entry
   \<and> cache_lookup (snd (performPeriodicSignatureInvalidation offline_host two_outdated))
      STATIC_CACHE_NAME ''https://example.com/b'' = None
   \<and> cache_lookup (snd (performPeriodicSignatureInvalidation flaky_host two_outdated))
      STATIC_CACHE_NAME ''https://example.com/b'' = Some outdated_entry"
  by (simp add: flaky_simps eval_simps AList.delete_eq)

text \<open>
  Claim C6, amended: both sweeps catch a failure while reading or deleting an entry and
  log it, so that the sweep itself never rejects; but the failure ends the pass. If the
  partitions \<open>ns1\<close> and, in the partition \<open>n\<close>, the keys \<open>ks1\<close> were swept without
  error and the entry \<open>k\<close> then fails, the state at the end of the sweep is the state
  of that moment with the warning added: the store is as the entries before \<open>k\<close> left
  it, and the keys \<open>ks2\<close> after \<open>k\<close> and the partitions \<open>ns2\<close> after \<open>n\<close> are not
  visited.
\<close>

theorem sweeps_stop_at_first_failure:
  "fst (performPeriodicCacheInvalidation h s) = Inr ()
   \<and> fst (performPeriodicSignatureInvalidation h s) = Inr ()
   \<and> (caches_keys s = ns1 @ n # ns2
        \<and> age_sweep_caches h ns1 s = (Inr (), s1)
        \<and> cache_keys n (caches_open n s1) = ks1 @ k # ks2
        \<and> age_sweep_keys h n ks1 (caches_open n s1) = (Inr (), s2)
        \<and> age_sweep_keys h n [k] s2 = (Inl e, s3)
      \<longrightarrow> performPeriodicCacheInvalidation h s =
            (Inr (), console_warn ''Periodic cache invalidation failed:'' s3)
        \<and> caches s3 = caches s2)
   \<and> (caches_keys s = ns1 @ n # ns2
        \<and> signature_sweep_caches h ns1 s = (Inr (), s1')
        \<and> cache_keys n (caches_open n s1') = ks1 @ k # ks2
        \<and> signature_sweep_keys h n ks1 (caches_open n s1') = (Inr (), s2')
        \<and> signature_sweep_keys h n [k] s2' = (Inl e', s3')
      \<longrightarrow> performPeriodicSignatureInvalidation h s =
            (Inr (), console_warn ''Periodic signature invalidation failed:'' s3')
        \<and> caches s3' = caches s2')"
  using age_sweep_stops [of s ns1 n ns2 h s1 ks1 k ks2 s2 e s3]
    signature_sweep_stops [of s ns1 n ns2 h s1' ks1 k ks2 s2' e' s3']
    age_sweep_one_failure [of h n k s2 e s3] signature_sweep_one_failure [of h n k s2' e' s3']
  by (simp add: sweeps_never_reject)

theorem sweeps_stop_at_first_failure_witness:
  "performPeriodicCacheInvalidation flaky_host two_outdated =
      (Inr (), console_warn ''Periodic cache invalidation failed:'' two_outdated)
   \<and> performPeriodicSignatureInvalidation flaky_host two_outdated =
      (Inr (), console_warn ''Periodic signature invalidation failed:'' two_outdated)
   \<and> cache_keys STATIC_CACHE_NAME two_outdated = [''https://example.com/a'', ''https://example.com/b'']
   \<and> age_sweep_keys flaky_host STATIC_CACHE_NAME [''https://example.com/a''] two_outdated =
        (Inl (StoreError OpMatch STATIC_CACHE_NAME ''https://example.com/a''), two_outdated)"
  using sweeps_stop_at_first_failure [of flaky_host two_outdated "[]" STATIC_CACHE_NAME "[]" two_outdated
      "[]" "''https://example.com/a''" "[''https://example.com/b'']" two_outdated
      "StoreError OpMatch STATIC_CACHE_NAME ''https://example.com/a''" two_outdated
      two_outdated two_outdated
      "StoreError OpMatch STATIC_CACHE_NAME ''https://example.com/a''" two_outdated]
  by (simp add: flaky_host_def outdated_entry_def two_outdated_def eval_simps)

subsection \<open>C7: updating the cache signatures\<close>

text \<open>
  Claim C7: \<^verbatim>\<open>updateCacheSignatures(map)\<close> overwrites the \<^verbatim>\<open>X-Signature\<close> of the
  entries that the map lists and refreshes their timestamp. The source attempts it with
  \<^verbatim>\<open>newResponse.headers.set(...)\<close> on the clone of the response that
  \<^verbatim>\<open>cache.match\<close> has returned. The headers of that clone are immutable, the call
  throws a \<^verbatim>\<open>TypeError\<close>, and the function has no \<^verbatim>\<open>try\<close> block. With the
  entries \<open>a\<close> and \<open>b\<close> in the static partition and a map that supplies
  \<^verbatim>\<open>sig-42\<close> for \<open>a\<close>, the call rejects at \<open>a\<close>, and \<open>a\<close> still carries
  its old signature and its old timestamp: the entry that the map lists is not
  overwritten. On any store and for any map, the call leaves every entry of every
  partition as it was.
\<close>

theorem update_signatures_rejects_at_first_entry:
  "cache_lookup (snd (updateCacheSignatures h signatures s)) = cache_lookup s
   \<and> sig_42 ''https://example.com/a'' = Some ''sig-42''
   \<and> cache_lookup two_outdated STATIC_CACHE_NAME ''https://example.com/a'' = Some outdated_entry
   \<and> headers_get outdated_entry ''X-Signature'' = Some ''https://example.com/b_5000000''
   \<and> fst (updateCacheSignatures offline_host sig_42 two_outdated) =
        Inl (TypeError ''headers are immutable'')
   \<and> cache_lookup (snd (updateCacheSignatures offline_host sig_42 two_outdated))
        STATIC_CACHE_NAME ''https://example.com/a'' = Some outdated_entry
   \<and> cache_lookup (snd (updateCacheSignatures offline_host sig_42 two_outdated))
        STATIC_CACHE_NAME ''https://example.com/b'' = Some outdated_entry"
proof -
  have "fst (updateCacheSignatures offline_host sig_42 two_outdated) =
        Inl (TypeError ''headers are immutable'')"
    by (simp add: updateCacheSignatures_def resign_and_put_def sig_42_def two_outdated_def
          outdated_entry_def eval_simps)
  then show ?thesis
    by (simp add: updateCacheSignatures_store sig_42_def two_outdated_def outdated_entry_def
          eval_simps)
qed

subsection \<open>C8: invalidation is idempotent\<close>

text \<open>
  Claim C8: \<^verbatim>\<open>invalidateCache(url)\<close> called on the state that a first call has left
  gives the result of the first call and leaves that state as it is. Deleting a key that
  is absent is no error: the only error is a delete that the store rejects, so when the
  store rejects none, both calls fulfil and the second changes nothing.
\<close>

theorem invalidate_cache_idempotent:
  "invalidateCache h u (snd (invalidateCache h u s)) = invalidateCache h u s
   \<and> ((\<forall>n \<in> set (caches_keys s). \<not> rejects h OpDelete n u) \<longrightarrow>
        fst (invalidateCache h u s) = Inr ()
      \<and> invalidateCache h u (snd (invalidateCache h u s)) = (Inr (), snd (invalidateCache h u s)))"
proof -
  let ?good = "takeWhile (\<lambda>n. \<not> rejects h OpDelete n u) (caches_keys s)"
  let ?s1 = "s\<lparr>caches := fold (delete_in u) ?good (caches s)\<rparr>"
  have keys: "caches_keys ?s1 = caches_keys s" by (simp add: caches_keys_def)
  have s1: "snd (invalidateCache h u s) = ?s1" by (simp add: invalidateCache_eq)
  have "fold (delete_in u) ?good (fold (delete_in u) ?good (caches s)) = fold (delete_in u) ?good (caches s)"
    by (rule fold_delete_in_absorbed) simp
  then have idem: "invalidateCache h u ?s1 = invalidateCache h u s"
    by (simp add: invalidateCache_eq [of h u ?s1] invalidateCache_eq [of h u s] keys)
  have ok: "fst (invalidateCache h u s) = Inr ()" if "\<forall>n \<in> set (caches_keys s). \<not> rejects h OpDelete n u"
    using that by (simp add: invalidateCache_eq find_None_iff split: option.splits)
  show ?thesis
    using idem ok by (simp add: s1 prod_eq_iff)
qed

theorem invalidate_cache_idempotent_witness:
  "fst (invalidateCache offline_host (req_url app_js)
      (state_of [(STATIC_CACHE_NAME, [(req_url app_js, signed_entry)]),
                 (DYNAMIC_CACHE_NAME, [(req_url page_v2, fresh_entry)])])) = Inr ()
   \<and> cache_lookup (snd (invalidateCache offline_host (req_url app_js)
      (state_of [(STATIC_CACHE_NAME, [(req_url app_js, signed_entry)]),
                 (DYNAMIC_CACHE_NAME, [(req_url page_v2, fresh_entry)])]))) STATIC_CACHE_NAME (req_url app_js) = None
   \<and> invalidateCache offline_host (req_url app_js)
       (snd (invalidateCache offline_host (req_url app_js)
         (state_of [(STATIC_CACHE_NAME, [(req_url app_js, signed_entry)]),
                    (DYNAMIC_CACHE_NAME, [(req_url page_v2, fresh_entry)])]))) =
       (Inr (), state_of [(STATIC_CACHE_NAME, []),
                          (DYNAMIC_CACHE_NAME, [(req_url page_v2, fresh_entry)])])"
  using invalidate_cache_idempotent [of offline_host "req_url app_js"
      "state_of [(STATIC_CACHE_NAME, [(req_url app_js, signed_entry)]),
                 (DYNAMIC_CACHE_NAME, [(req_url page_v2, fresh_entry)])]"]
  by (simp add: invalidateCache_def eval_simps AList.delete_eq)

subsection \<open>C9: an unsigned entry never takes the fast path\<close>

text \<open>
  Claim C9: in the asset policy an entry of the static partition without an
  \<^verbatim>\<open>X-Signature\<close> header is returned only as a fallback, when the fetch fails. The
  handler does fetch. When the fetch settles with an \<^verbatim>\<open>ok\<close> response, the source
  goes on to \<^verbatim>\<open>responseToCache.headers.set('X-Signature', ...)\<close> on the clone of
  that response, inside the \<^verbatim>\<open>try\<close> block. The headers of the clone are immutable,
  the call throws a \<^verbatim>\<open>TypeError\<close>, and the \<^verbatim>\<open>catch\<close> block returns the cached
  entry: with the unsigned entry cached for \<^verbatim>\<open>app.js\<close> and a server that answers
  \<^verbatim>\<open>ok\<close>, one fetch is issued, it succeeds, and the handler still resolves to the
  unsigned entry, not to the response of the network; nothing is stored.
\<close>

theorem asset_unsigned_entry_returned_after_ok_fetch:
  "cache_match online_host STATIC_CACHE_NAME (req_url app_js)
      (state_of [(STATIC_CACHE_NAME, [(req_url app_js, unsigned_entry)])]) = Inr (Some unsigned_entry)
   \<and> headers_get unsigned_entry ''X-Signature'' = None
   \<and> fetches (snd (handleAssetRequestWithSignatureInvalidation online_host app_js
        (state_of [(STATIC_CACHE_NAME, [(req_url app_js, unsigned_entry)])]))) =
      [busting_fetch app_js [(''X-Signature'', ''https://example.com/assets/app.js_5666666'')]]
   \<and> await_fetch online_host 0
        (busting_fetch app_js [(''X-Signature'', ''https://example.com/assets/app.js_5666666'')]) =
      Responded new_app_js
   \<and> ok new_app_js
   \<and> fst (handleAssetRequestWithSignatureInvalidation online_host app_js
        (state_of [(STATIC_CACHE_NAME, [(req_url app_js, unsigned_entry)])])) = Inr unsigned_entry
   \<and> fst (handleAssetRequestWithSignatureInvalidation online_host app_js
        (state_of [(STATIC_CACHE_NAME, [(req_url app_js, unsigned_entry)])])) \<noteq> Inr new_app_js
   \<and> cache_lookup (snd (handleAssetRequestWithSignatureInvalidation online_host app_js
        (state_of [(STATIC_CACHE_NAME, [(req_url app_js, unsigned_entry)])])))
        STATIC_CACHE_NAME (req_url app_js) = Some unsigned_entry"
  by (simp add: handler_simps eval_simps)

subsection \<open>C10: only ok responses are stored\<close>

text \<open>
  Claim C10: across the four fetch policies and the resumption of their detached
  background refreshes, a response that is not \<^verbatim>\<open>ok\<close> is never written. If every
  stored response is \<^verbatim>\<open>ok\<close> before, so it is after a handler and after a resumed
  task; and when the fetch of a handler, or the fetch a task waits for, does not settle
  with an \<^verbatim>\<open>ok\<close> response, every entry of every partition is what it was.
\<close>

theorem non_ok_responses_never_stored:
  "(only_ok_entries s \<longrightarrow>
        only_ok_entries (snd (run_policy p h req s)) \<and> only_ok_entries (snd (resume_task h t s)))
   \<and> ((\<forall>c. \<not> settled_ok (net h (length (fetches s)) c)) \<longrightarrow>
        cache_lookup (snd (run_policy p h req s)) = cache_lookup s)
   \<and> (\<not> settled_ok (net h (t_fetch t) (t_call t)) \<longrightarrow>
        cache_lookup (snd (resume_task h t s)) = cache_lookup s)"
  by (simp add: run_policy_only_ok resume_task_only_ok run_policy_not_ok resume_task_not_ok)

theorem non_ok_responses_never_stored_witness:
  "only_ok_entries (state_of [(API_CACHE_NAME, [(req_url api_data, fresh_entry)])])
   \<and> \<not> settled_ok (net server_error_host 0 (plain_fetch api_data))
   \<and> only_ok_entries (snd (run_policy NetworkFirstWithCacheBust server_error_host api_data
        (state_of [(API_CACHE_NAME, [(req_url api_data, fresh_entry)])])))
   \<and> cache_lookup (snd (run_policy NetworkFirstWithCacheBust server_error_host api_data
        (state_of [(API_CACHE_NAME, [(req_url api_data, fresh_entry)])]))) API_CACHE_NAME (req_url api_data)
      = Some fresh_entry
   \<and> cache_lookup (snd (resume_task server_error_host
        \<lparr>t_kind = UpdateCacheInBackground, t_request = api_data, t_cache = API_CACHE_NAME,
          t_fetch = 0, t_call = plain_fetch api_data\<rparr>
        (state_of [(API_CACHE_NAME, [(req_url api_data, fresh_entry)])]))) API_CACHE_NAME (req_url api_data)
      = Some fresh_entry"
  using non_ok_responses_never_stored [of "state_of [(API_CACHE_NAME, [(req_url api_data, fresh_entry)])]"
      NetworkFirstWithCacheBust server_error_host api_data
      "\<lparr>t_kind = UpdateCacheInBackground, t_request = api_data, t_cache = API_CACHE_NAME,
          t_fetch = 0, t_call = plain_fetch api_data\<rparr>"]
  by (simp add: only_ok_entries_def settled_ok_def eval_simps)

end
